theory Spec2Isabelle
  imports Complex_Main
begin

section \<open>Data model (types.ts)\<close>

text \<open>
  A JavaScript string is a sequence of UTF-16 code units; here it is a \<open>string\<close>, each
  \<open>char\<close> standing for one code unit, so that \<open>length\<close>, \<open>take\<close> and \<open>drop\<close> count what
  \<^verbatim>\<open>text.length\<close> and \<^verbatim>\<open>text.substring\<close> count. Texts, vocabularies and arrays may
  have any length.
\<close>

subsection \<open>Numbers and other values\<close>

text \<open>
  A value as the engine meets it in a score, a cost or a table entry: a finite number,
  \<^verbatim>\<open>Infinity\<close>, \<^verbatim>\<open>-Infinity\<close>, \<^verbatim>\<open>NaN\<close>, or an object (\<^verbatim>\<open>Object.prototype\<close> or one of its
  methods, which a lookup in a plain object can return). Finite numbers are reals: the
  rounding of a result to the nearest double is not modelled, leaving the range of the
  doubles is. Negative zero is not distinguished from zero.
\<close>

datatype jsval = Num real | PosInf | NegInf | NaN | Obj

text \<open>
  The double for an exact result \<open>x\<close>: from \<open>2\<^sup>1\<^sup>0\<^sup>2\<^sup>4 - 2\<^sup>9\<^sup>7\<^sup>0\<close> on it rounds to
  \<^verbatim>\<open>Infinity\<close>, up to \<open>2\<^sup>-\<^sup>1\<^sup>0\<^sup>7\<^sup>5\<close> in absolute value it rounds to zero.
\<close>

definition toDouble :: "real \<Rightarrow> jsval" where
  "toDouble x =
     (if 2 ^ 1024 - 2 ^ 970 \<le> x then PosInf
      else if x \<le> - (2 ^ 1024 - 2 ^ 970) then NegInf
      else if \<bar>x\<bar> \<le> 1 / 2 ^ 1075 then Num 0
      else Num x)"

text \<open>\<^verbatim>\<open>Math.exp\<close> of a finite number.\<close>

definition jsExp :: "real \<Rightarrow> jsval" where
  "jsExp x = toDouble (exp x)"

text \<open>
  \<^verbatim>\<open>a + b\<close>, with the finite case as a parameter. With an object as operand the result
  is a string, which is no number either and stands as \<open>Obj\<close>.
\<close>

fun plusBy :: "(real \<Rightarrow> jsval) \<Rightarrow> jsval \<Rightarrow> jsval \<Rightarrow> jsval" where
  "plusBy r (Num a) (Num b) = r (a + b)"
| "plusBy r Obj b = Obj"
| "plusBy r a Obj = Obj"
| "plusBy r NaN b = NaN"
| "plusBy r a NaN = NaN"
| "plusBy r PosInf NegInf = NaN"
| "plusBy r NegInf PosInf = NaN"
| "plusBy r PosInf b = PosInf"
| "plusBy r a PosInf = PosInf"
| "plusBy r NegInf b = NegInf"
| "plusBy r a NegInf = NegInf"

text \<open>\<^verbatim>\<open>s + x\<close> in the sum of the exponentials.\<close>

definition jsAdd :: "jsval \<Rightarrow> jsval \<Rightarrow> jsval" where
  "jsAdd = plusBy toDouble"

text \<open>\<^verbatim>\<open>a / b\<close> on numbers; an object as operand converts to \<^verbatim>\<open>NaN\<close>.\<close>

fun jsDiv :: "jsval \<Rightarrow> jsval \<Rightarrow> jsval" where
  "jsDiv (Num a) (Num b) =
     (if b = 0 then (if a = 0 then NaN else if 0 < a then PosInf else NegInf)
      else toDouble (a / b))"
| "jsDiv (Num a) PosInf = Num 0"
| "jsDiv (Num a) NegInf = Num 0"
| "jsDiv PosInf (Num b) = (if b < 0 then NegInf else PosInf)"
| "jsDiv NegInf (Num b) = (if b < 0 then PosInf else NegInf)"
| "jsDiv a b = NaN"

text \<open>\<^verbatim>\<open>Math.log\<close>; an object as argument converts to \<^verbatim>\<open>NaN\<close>.\<close>

fun jsLog :: "jsval \<Rightarrow> jsval" where
  "jsLog (Num x) = (if x < 0 then NaN else if x = 0 then NegInf else Num (ln x))"
| "jsLog PosInf = PosInf"
| "jsLog v = NaN"

text \<open>Unary minus.\<close>

fun jsNeg :: "jsval \<Rightarrow> jsval" where
  "jsNeg (Num x) = Num (- x)"
| "jsNeg PosInf = NegInf"
| "jsNeg NegInf = PosInf"
| "jsNeg v = NaN"

text \<open>Truthiness, as \<^verbatim>\<open>||\<close> reads it: zero and \<^verbatim>\<open>NaN\<close> are falsy.\<close>

fun truthy :: "jsval \<Rightarrow> bool" where
  "truthy (Num x) = (x \<noteq> 0)"
| "truthy NaN = False"
| "truthy v = True"

text \<open>
  \<^verbatim>\<open>a < b\<close> with a number on one side at least, as the decoder compares a new cost with
  the one in its table: false when an operand is \<^verbatim>\<open>NaN\<close> or converts to it (an object, or
  the string that \<open>Obj\<close> stands for after \<^verbatim>\<open>+\<close>). The table starts with numbers and takes a
  new cost only when the comparison holds, so it never holds anything but numbers.
\<close>

fun costLess :: "jsval \<Rightarrow> jsval \<Rightarrow> bool" where
  "costLess (Num a) (Num b) = (a < b)"
| "costLess (Num a) PosInf = True"
| "costLess NegInf (Num b) = True"
| "costLess NegInf PosInf = True"
| "costLess a b = False"

subsection \<open>Plain objects as tables\<close>

text \<open>
  \<^verbatim>\<open>const t: Record<string, number> = {}\<close> is a plain object: its own properties are a
  map, it inherits the members of \<^verbatim>\<open>Object.prototype\<close>, and the key \<^verbatim>\<open>__proto__\<close> is an
  accessor: assigning a number to it stores nothing, reading it yields
  \<^verbatim>\<open>Object.prototype\<close>.
\<close>

datatype 'a jsprop = Own 'a | Inherited | Missing

definition objectPrototypeKeys :: "string list" where
  "objectPrototypeKeys =
     [''constructor'', ''__defineGetter__'', ''__defineSetter__'', ''hasOwnProperty'',
      ''__lookupGetter__'', ''__lookupSetter__'', ''isPrototypeOf'', ''propertyIsEnumerable'',
      ''toString'', ''valueOf'', ''__proto__'', ''toLocaleString'']"

text \<open>\<^verbatim>\<open>t[k] = v\<close> for a number \<open>v\<close>.\<close>

definition objSet :: "string \<Rightarrow> 'a \<Rightarrow> (string \<rightharpoonup> 'a) \<Rightarrow> (string \<rightharpoonup> 'a)" where
  "objSet k v t = (if k = ''__proto__'' then t else t(k \<mapsto> v))"

text \<open>\<^verbatim>\<open>t[k]\<close>.\<close>

definition objGet :: "(string \<rightharpoonup> 'a) \<Rightarrow> string \<Rightarrow> 'a jsprop" where
  "objGet t k =
     (if k = ''__proto__'' then Inherited
      else case t k of
             Some v \<Rightarrow> Own v
           | None \<Rightarrow> if k \<in> set objectPrototypeKeys then Inherited else Missing)"

subsection \<open>Records\<close>

datatype AlgorithmType = BPE | WORDPIECE | UNIGRAM

text \<open>\<^verbatim>\<open>VocabItem\<close>: a token and its raw score, a finite number.\<close>

record VocabItem =
  token :: string
  vscore :: real

text \<open>
  \<^verbatim>\<open>TokenEdge\<close>: the fields \<^verbatim>\<open>id\<close>, \<^verbatim>\<open>from\<close>, \<^verbatim>\<open>to\<close>, \<^verbatim>\<open>label\<close>, \<^verbatim>\<open>score\<close>
  (prefixed with \<open>e\<close>, since \<open>id\<close> and \<open>from\<close> are taken). The optional fields
  \<^verbatim>\<open>isStart\<close> and \<^verbatim>\<open>isEnd\<close> are never written by the engine.
\<close>

record TokenEdge =
  eid :: string
  efrom :: nat
  eto :: nat
  elabel :: string
  escore :: jsval

record FSTGraphData =
  nodes :: "nat list"
  edges :: "TokenEdge list"
  gtext :: string

record TokenizerResult =
  graph :: FSTGraphData
  selectedPath :: "string list"
  tokens :: "string list"

text \<open>One entry of \<^verbatim>\<open>viterbiSnapshot\<close>: \<^verbatim>\<open>{ node, cost, edgeId, prev }\<close>.\<close>

record SnapshotEntry =
  node :: nat
  snapCost :: jsval
  snapEdgeId :: "string option"
  prev :: int

record StepFrame =
  frameId :: string
  description :: string
  candidates :: "string list"
  chosen :: "string option"
  partialPath :: "string list"
  viterbiSnapshot :: "SnapshotEntry list option"

section \<open>Template strings\<close>

text \<open>\<^verbatim>\<open>`${i}`\<close> for a non-negative integer \<open>i\<close>: its decimal digits.\<close>

definition digit_char :: "nat \<Rightarrow> char" where
  "digit_char d = ''0123456789'' ! d"

fun show_nat :: "nat \<Rightarrow> string" where
  "show_nat n = (if n < 10 then [digit_char n] else show_nat (n div 10) @ [digit_char (n mod 10)])"

declare show_nat.simps [simp del]

section \<open>The built-in vocabulary (constants.ts)\<close>

definition vi :: "string \<Rightarrow> real \<Rightarrow> VocabItem" where
  "vi t s = \<lparr>token = t, vscore = s\<rparr>"

definition FALLBACK_VOCAB :: "VocabItem list" where
  "FALLBACK_VOCAB =
    [vi ''t'' 1, vi ''th'' 2, vi ''the'' 5, vi ''a'' 1, vi ''an'' 2, vi ''un'' 3, vi ''in'' 2,
     vi ''inter'' 4, vi ''run'' 3, vi ''running'' 6,
     vi ''at'' 1, vi ''tre'' 2, vi ''re'' 1, vi ''r'' 0.5, vi ''ing'' 4, vi ''n'' 0.5,
     vi ''i'' 0.5, vi ''tion'' 5, vi ''national'' 6, vi ''ali'' 3, vi ''zation'' 5, vi ''is'' 2,
     vi ''on'' 1, vi ''count'' 4, vi ''er'' 2, vi ''intui'' 4, vi ''tive'' 4, vi ''happ'' 3,
     vi ''y'' 1, vi ''ness'' 3, vi ''est'' 2, vi ''low'' 3, vi ''new'' 3, vi ''neural'' 5,
     vi ''net'' 3, vi ''work'' 3, vi ''works'' 4,
     vi ''token'' 5, vi ''tokeni'' 4, vi ''tokeniz'' 5, vi ''tokenize'' 6, vi ''tokenizer'' 7,
     vi ''ize'' 3, vi ''izer'' 4,
     vi ''##ing'' 4, vi ''##tion'' 5, vi ''##er'' 2, vi ''##ness'' 3, vi ''##y'' 1, vi ''##s'' 1]"

text \<open>
  \<^verbatim>\<open>MOCK_VOCAB\<close> is bound when the module is evaluated, while \<^verbatim>\<open>VOCAB_DATA\<close> is still
  empty (the fetch of \<^verbatim>\<open>vocab.json\<close> has not completed), so it is the array
  \<^verbatim>\<open>FALLBACK_VOCAB\<close>. The last statement of the module sorts that array in place by
  descending score (\<^verbatim>\<open>Array.prototype.sort\<close> is stable), after \<^verbatim>\<open>UNIGRAM_PROBS\<close> has been
  filled; every later call of the engine sees the sorted array.
\<close>

definition MOCK_VOCAB :: "VocabItem list" where
  "MOCK_VOCAB = sort_key (\<lambda>v. - vscore v) FALLBACK_VOCAB"

text \<open>
  The softmax table: \<^verbatim>\<open>expScores = vocab.map(v => Math.exp(v.score))\<close>,
  \<^verbatim>\<open>expSum = expScores.reduce((s, x) => s + x, 0) || 1\<close>, then
  \<^verbatim>\<open>probs[v.token] = expScores[idx] / expSum\<close> for each entry in order (a later entry with
  the same token overwrites an earlier one). The same code fills \<^verbatim>\<open>UNIGRAM_PROBS\<close> in
  constants.ts and \<^verbatim>\<open>unigramProbs\<close> in \<^verbatim>\<open>buildLattice\<close>.
\<close>

definition expSum :: "VocabItem list \<Rightarrow> jsval" where
  "expSum vocab =
     (let s = foldl jsAdd (Num 0) (map (\<lambda>v. jsExp (vscore v)) vocab)
      in if truthy s then s else Num 1)"

definition softmaxTable :: "VocabItem list \<Rightarrow> (string \<rightharpoonup> jsval)" where
  "softmaxTable vocab =
     fold (\<lambda>v t. objSet (token v) (jsDiv (jsExp (vscore v)) (expSum vocab)) t) vocab Map.empty"

text \<open>\<^verbatim>\<open>vocab.forEach((v, idx) => { ranks[v.token] = idx })\<close>.\<close>

definition indexTable :: "VocabItem list \<Rightarrow> (string \<rightharpoonup> nat)" where
  "indexTable vocab =
     fold (\<lambda>(v, idx) t. objSet (token v) idx t) (zip vocab [0..<length vocab]) Map.empty"

definition UNIGRAM_PROBS :: "string \<rightharpoonup> jsval" where
  "UNIGRAM_PROBS = softmaxTable FALLBACK_VOCAB"

definition BPE_RANKS :: "string \<rightharpoonup> nat" where
  "BPE_RANKS = indexTable MOCK_VOCAB"

section \<open>Lattice construction (buildLattice)\<close>

definition MAX_TOKEN_LENGTH :: nat where
  "MAX_TOKEN_LENGTH = 20"

text \<open>
  The body of the inner loop up to \<^verbatim>\<open>if (!match) continue\<close>: the first entry whose token is
  the substring; failing that, in WordPiece mode and away from position 0, the first entry
  whose token is \<^verbatim>\<open>##\<close> followed by the substring.
\<close>

definition findMatch :: "VocabItem list \<Rightarrow> AlgorithmType \<Rightarrow> nat \<Rightarrow> string \<Rightarrow> VocabItem option" where
  "findMatch vocab algo i substr =
     (case find (\<lambda>v. token v = substr) vocab of
        Some m \<Rightarrow> Some m
      | None \<Rightarrow>
          if algo = WORDPIECE \<and> i > 0 then find (\<lambda>v. token v = ''##'' @ substr) vocab
          else None)"

text \<open>
  The score of a matched edge. \<^verbatim>\<open>unigramProbs[t] || 0.0001\<close> takes the floor when the
  lookup is \<^verbatim>\<open>undefined\<close>, zero or \<^verbatim>\<open>NaN\<close>, and keeps an object; \<^verbatim>\<open>bpeRanks[t] ?? 999\<close>
  takes the sentinel only when the lookup is \<^verbatim>\<open>undefined\<close>.
\<close>

definition edgeScore ::
  "AlgorithmType \<Rightarrow> (string \<rightharpoonup> jsval) \<Rightarrow> (string \<rightharpoonup> nat) \<Rightarrow> VocabItem \<Rightarrow> string \<Rightarrow> jsval" where
  "edgeScore algo unigramProbs bpeRanks m substr =
     (case algo of
        UNIGRAM \<Rightarrow>
          (let prob = (case objGet unigramProbs (token m) of
                         Own p \<Rightarrow> if truthy p then p else Num 0.0001
                       | Inherited \<Rightarrow> Obj
                       | Missing \<Rightarrow> Num 0.0001)
           in jsNeg (jsLog prob))
      | BPE \<Rightarrow> (case objGet bpeRanks (token m) of
                  Own r \<Rightarrow> Num (real r)
                | Inherited \<Rightarrow> Obj
                | Missing \<Rightarrow> Num 999)
      | WORDPIECE \<Rightarrow> Num (real (length substr)))"

definition matchedEdge ::
  "string \<Rightarrow> AlgorithmType \<Rightarrow> VocabItem list \<Rightarrow> (string \<rightharpoonup> jsval) \<Rightarrow> (string \<rightharpoonup> nat) \<Rightarrow>
   nat \<Rightarrow> nat \<Rightarrow> TokenEdge option" where
  "matchedEdge txt algo vocab unigramProbs bpeRanks i j =
     (let substr = take (j - i) (drop i txt) in
      case findMatch vocab algo i substr of
        None \<Rightarrow> None
      | Some m \<Rightarrow>
          Some \<lparr>eid = ''edge-'' @ show_nat i @ ''-'' @ show_nat j @ ''-'' @ token m,
                efrom = i, eto = j, elabel = token m,
                escore = edgeScore algo unigramProbs bpeRanks m substr\<rparr>)"

definition fallbackEdge :: "string \<Rightarrow> nat \<Rightarrow> TokenEdge" where
  "fallbackEdge txt i =
     \<lparr>eid = ''edge-'' @ show_nat i @ ''-'' @ show_nat (i + 1) @ ''-fallback-'' @ [txt ! i],
      efrom = i, eto = i + 1, elabel = [txt ! i], escore = Num 10\<rparr>"

text \<open>
  One round of the outer loop: the matched edges for \<open>j = i + 1, \<dots>, maxJ\<close> in that order,
  or the single fallback edge when \<^verbatim>\<open>hasMatchAtPosition\<close> stayed false.
\<close>

definition edgesAt ::
  "string \<Rightarrow> AlgorithmType \<Rightarrow> VocabItem list \<Rightarrow> (string \<rightharpoonup> jsval) \<Rightarrow> (string \<rightharpoonup> nat) \<Rightarrow>
   nat \<Rightarrow> TokenEdge list" where
  "edgesAt txt algo vocab unigramProbs bpeRanks i =
     (let n = length txt;
          maxJ = min n (i + MAX_TOKEN_LENGTH);
          matched = List.map_filter (matchedEdge txt algo vocab unigramProbs bpeRanks i)
                      [i + 1 ..< maxJ + 1]
      in if matched = [] then [fallbackEdge txt i] else matched)"

text \<open>
  \<^verbatim>\<open>customVocab || MOCK_VOCAB\<close>: an array, even an empty one, is truthy, so only a missing
  argument (\<open>None\<close>) selects the built-in vocabulary and its tables.
\<close>

definition buildLattice ::
  "string \<Rightarrow> AlgorithmType \<Rightarrow> VocabItem list option \<Rightarrow> TokenEdge list \<times> nat list" where
  "buildLattice txt algo customVocab =
     (let n = length txt;
          nodes = [0 ..< n + 1];
          vocab = (case customVocab of Some cv \<Rightarrow> cv | None \<Rightarrow> MOCK_VOCAB);
          unigramProbs = (case customVocab of Some cv \<Rightarrow> softmaxTable cv | None \<Rightarrow> UNIGRAM_PROBS);
          bpeRanks = (case customVocab of Some cv \<Rightarrow> indexTable cv | None \<Rightarrow> BPE_RANKS);
          edges = concat (map (edgesAt txt algo vocab unigramProbs bpeRanks) [0 ..< n])
      in (edges, nodes))"

section \<open>Decoding\<close>

subsection \<open>Greedy decoding (greedyDecode)\<close>

text \<open>
  \<^verbatim>\<open>candidates.sort((a, b) => (b.to - b.from) - (a.to - a.from))\<close> orders by descending
  span and is stable; it is the stable insertion sort \<open>sort_key\<close> on the negated span.
\<close>

definition spanKey :: "TokenEdge \<Rightarrow> int" where
  "spanKey e = - (int (eto e) - int (efrom e))"

text \<open>
  The \<^verbatim>\<open>while (current < length)\<close> loop with its state \<open>(current, path)\<close>. Nothing in the
  loop itself forces \<open>current\<close> to grow, so the result is an option: \<open>None\<close> stands for a
  run that does not return.
\<close>

partial_function (option) greedyLoop ::
  "TokenEdge list \<Rightarrow> nat \<Rightarrow> nat \<Rightarrow> string list \<Rightarrow> string list option" where
  "greedyLoop es len current path =
     (if current < len then
        (let cands = filter (\<lambda>e. efrom e = current) es in
         if cands = [] then Some path
         else (let best = hd (sort_key spanKey cands)
               in greedyLoop es len (eto best) (path @ [eid best])))
      else Some path)"

definition greedyDecode :: "TokenEdge list \<Rightarrow> nat \<Rightarrow> string list option" where
  "greedyDecode es len = greedyLoop es len 0 []"

subsection \<open>Viterbi decoding (viterbiDecode)\<close>

text \<open>One cell of \<^verbatim>\<open>minCost\<close>: \<^verbatim>\<open>{ cost, edgeId, prevNode }\<close>.\<close>

record CostEntry =
  cost :: jsval
  edgeId :: "string option"
  prevNode :: int

definition initCost :: "nat \<Rightarrow> CostEntry list" where
  "initCost len =
     (replicate (len + 1) \<lparr>cost = PosInf, edgeId = None, prevNode = - 1\<rparr>)
       [0 := \<lparr>cost = Num 0, edgeId = None, prevNode = - 1\<rparr>]"

text \<open>
  \<^verbatim>\<open>minCost[i].cost + edge.score\<close>. A finite cost is the sum of the finite scores along
  a path of at most \<open>len(text)\<close> edges, and a finite score of a Unigram lattice is 10 or
  \<open>- ln p\<close> for a positive double \<open>p\<close>, below 746 in absolute value: such a sum is far
  inside the range of the doubles for every text a runtime can hold, and finite costs are
  added exactly.
\<close>

definition costPlus :: "jsval \<Rightarrow> jsval \<Rightarrow> jsval" where
  "costPlus = plusBy Num"

text \<open>A loop whose body may throw: \<open>None\<close> aborts the rest.\<close>

fun foldOption :: "('s \<Rightarrow> 'a \<Rightarrow> 's option) \<Rightarrow> 'a list \<Rightarrow> 's \<Rightarrow> 's option" where
  "foldOption f [] s = Some s"
| "foldOption f (x # xs) s = (case f s x of None \<Rightarrow> None | Some s' \<Rightarrow> foldOption f xs s')"

text \<open>
  The body of \<^verbatim>\<open>for (const edge of outgoing)\<close>. Reading \<^verbatim>\<open>minCost[edge.to].cost\<close> beyond
  the table is a TypeError (\<open>None\<close>).
\<close>

definition relaxEdge :: "nat \<Rightarrow> CostEntry list \<Rightarrow> TokenEdge \<Rightarrow> CostEntry list option" where
  "relaxEdge i minCost edge =
     (let newCost = costPlus (cost (minCost ! i)) (escore edge) in
      if eto edge < length minCost then
        (if costLess newCost (cost (minCost ! eto edge))
         then Some (minCost[eto edge := \<lparr>cost = newCost, edgeId = Some (eid edge), prevNode = int i\<rparr>])
         else Some minCost)
      else None)"

definition relaxNode :: "TokenEdge list \<Rightarrow> CostEntry list \<Rightarrow> nat \<Rightarrow> CostEntry list option" where
  "relaxNode es minCost i =
     (if cost (minCost ! i) = PosInf then Some minCost
      else foldOption (relaxEdge i) (filter (\<lambda>e. efrom e = i) es) minCost)"

text \<open>
  The backtracking loop \<^verbatim>\<open>while (curr > 0)\<close>; \<^verbatim>\<open>!node.edgeId\<close> holds for \<^verbatim>\<open>null\<close> and
  for the empty string.
\<close>

partial_function (option) backtrack ::
  "CostEntry list \<Rightarrow> int \<Rightarrow> string list \<Rightarrow> string list option" where
  "backtrack minCost cur path =
     (if cur > 0 then
        (if nat cur < length minCost then
           (case edgeId (minCost ! nat cur) of
              None \<Rightarrow> Some path
            | Some e \<Rightarrow>
                if e = [] then Some path
                else backtrack minCost (prevNode (minCost ! nat cur)) (e # path))
         else None)
      else Some path)"

definition viterbiDecode :: "TokenEdge list \<Rightarrow> nat \<Rightarrow> string list option" where
  "viterbiDecode es len =
     (case foldOption (relaxNode es) [0 ..< len] (initCost len) of
        None \<Rightarrow> None
      | Some minCost \<Rightarrow> backtrack minCost (int len) [])"

section \<open>The entry point (tokenize)\<close>

text \<open>\<^verbatim>\<open>edges.find(e => e.id === id)?.label || ''\<close>.\<close>

definition labelOf :: "TokenEdge list \<Rightarrow> string \<Rightarrow> string" where
  "labelOf es i = (case find (\<lambda>e. eid e = i) es of Some e \<Rightarrow> elabel e | None \<Rightarrow> [])"

text \<open>
  The entry points take the normalizer as a parameter on their strings; the normalizer
  itself is modelled on code units in the last section. The result is \<open>None\<close> when the
  decoder does not return.
\<close>

definition tokenize ::
  "(string \<Rightarrow> string) \<Rightarrow> string \<Rightarrow> AlgorithmType \<Rightarrow> bool \<Rightarrow> VocabItem list option \<Rightarrow>
   TokenizerResult option" where
  "tokenize normalizeText inputText algo normalize_flag customVocab =
     (let processedText = (if normalize_flag then normalizeText inputText else inputText);
          (es, ns) = buildLattice processedText algo customVocab
      in case (if algo = UNIGRAM then viterbiDecode es (length processedText)
               else greedyDecode es (length processedText)) of
           None \<Rightarrow> None
         | Some path \<Rightarrow>
             Some \<lparr>graph = \<lparr>nodes = ns, edges = es, gtext = processedText\<rparr>,
                   selectedPath = path,
                   tokens = map (labelOf es) path\<rparr>)"

section \<open>Tracing (tokenizeWithTrace)\<close>

definition show_int :: "int \<Rightarrow> string" where
  "show_int k = (if k < 0 then CHR ''-'' # show_nat (nat (- k)) else show_nat (nat k))"

text \<open>\<^verbatim>\<open>minCost.map((m, idx) => ({ node: idx, cost: m.cost, edgeId: m.edgeId, prev: m.prevNode }))\<close>.\<close>

definition snapshot :: "CostEntry list \<Rightarrow> SnapshotEntry list" where
  "snapshot minCost =
     map (\<lambda>(idx, m). \<lparr>node = idx, snapCost = cost m, snapEdgeId = edgeId m, prev = prevNode m\<rparr>)
       (zip [0 ..< length minCost] minCost)"

definition relaxEdgeT ::
  "nat \<Rightarrow> CostEntry list \<times> StepFrame list \<Rightarrow> TokenEdge \<Rightarrow> (CostEntry list \<times> StepFrame list) option" where
  "relaxEdgeT i st edge =
     (let minCost = fst st; frames = snd st;
          newCost = costPlus (cost (minCost ! i)) (escore edge) in
      if eto edge < length minCost then
        (if costLess newCost (cost (minCost ! eto edge))
         then (let minCost' = minCost[eto edge := \<lparr>cost = newCost, edgeId = Some (eid edge), prevNode = int i\<rparr>]
               in Some (minCost',
                    frames @
                    [\<lparr>frameId = ''frame-update-'' @ show_nat i @ ''-'' @ show_nat (eto edge),
                      description = ''Update cost for node '' @ show_nat (eto edge) @ '' via '' @ eid edge,
                      candidates = [eid edge],
                      chosen = Some (eid edge),
                      partialPath = [],
                      viterbiSnapshot = Some (snapshot minCost')\<rparr>]))
         else Some (minCost, frames))
      else None)"

definition relaxNodeT ::
  "TokenEdge list \<Rightarrow> CostEntry list \<times> StepFrame list \<Rightarrow> nat \<Rightarrow> (CostEntry list \<times> StepFrame list) option" where
  "relaxNodeT es st i =
     (let minCost = fst st; frames = snd st in
      if cost (minCost ! i) = PosInf then Some (minCost, frames)
      else (let outgoing = filter (\<lambda>e. efrom e = i) es
            in foldOption (relaxEdgeT i) outgoing
                 (minCost,
                  frames @
                  [\<lparr>frameId = ''frame-consider-'' @ show_nat i,
                    description = ''Considering outgoing edges from node '' @ show_nat i,
                    candidates = map eid outgoing,
                    chosen = None,
                    partialPath = [],
                    viterbiSnapshot = Some (snapshot minCost)\<rparr>])))"

text \<open>The traced backtracking loop; here \<^verbatim>\<open>!node || !node.edgeId\<close> guards the read.\<close>

partial_function (option) backtrackT ::
  "CostEntry list \<Rightarrow> int \<Rightarrow> string list \<Rightarrow> StepFrame list \<Rightarrow> (string list \<times> StepFrame list) option" where
  "backtrackT minCost cur path frames =
     (if cur > 0 then
        (if nat cur < length minCost then
           (case edgeId (minCost ! nat cur) of
              None \<Rightarrow> Some (path, frames)
            | Some e \<Rightarrow>
                if e = [] then Some (path, frames)
                else backtrackT minCost (prevNode (minCost ! nat cur)) (e # path)
                       (frames @
                        [\<lparr>frameId = ''frame-backtrack-'' @ show_int (prevNode (minCost ! nat cur)),
                          description = ''Backtracking chose '' @ e,
                          candidates = [],
                          chosen = Some e,
                          partialPath = e # path,
                          viterbiSnapshot = Some (snapshot minCost)\<rparr>]))
         else Some (path, frames))
      else Some (path, frames))"

partial_function (option) greedyLoopT ::
  "TokenEdge list \<Rightarrow> nat \<Rightarrow> nat \<Rightarrow> string list \<Rightarrow> StepFrame list \<Rightarrow> (string list \<times> StepFrame list) option" where
  "greedyLoopT es len current path frames =
     (if current < len then
        (let cands = filter (\<lambda>e. efrom e = current) es;
             frames1 = frames @
               [\<lparr>frameId = ''frame-consider-'' @ show_nat current,
                 description = ''Considering tokens at index '' @ show_nat current,
                 candidates = map eid cands,
                 chosen = None,
                 partialPath = path,
                 viterbiSnapshot = None\<rparr>] in
         if cands = [] then Some (path, frames1)
         else (let sorted = sort_key spanKey cands;
                   best = hd sorted
               in greedyLoopT es len (eto best) (path @ [eid best])
                    (frames1 @
                     [\<lparr>frameId = ''frame-choose-'' @ eid best,
                       description = ''Chose '' @ elabel best @ '' ('' @ eid best @ '')'',
                       candidates = map eid sorted,
                       chosen = Some (eid best),
                       partialPath = path @ [eid best],
                       viterbiSnapshot = None\<rparr>])))
      else Some (path, frames))"

definition tokenizeWithTrace ::
  "(string \<Rightarrow> string) \<Rightarrow> string \<Rightarrow> AlgorithmType \<Rightarrow> bool \<Rightarrow> VocabItem list option \<Rightarrow>
   (TokenizerResult \<times> StepFrame list) option" where
  "tokenizeWithTrace normalizeText inputText algo normalize_flag customVocab =
     (let processedText = (if normalize_flag then normalizeText inputText else inputText);
          (es, ns) = buildLattice processedText algo customVocab
      in case (if algo = UNIGRAM then
                 (case foldOption (relaxNodeT es) [0 ..< length processedText]
                         (initCost (length processedText), []) of
                    None \<Rightarrow> None
                  | Some (minCost, frames) \<Rightarrow> backtrackT minCost (int (length processedText)) [] frames)
               else greedyLoopT es (length processedText) 0 [] []) of
           None \<Rightarrow> None
         | Some (path, frames) \<Rightarrow>
             Some (\<lparr>graph = \<lparr>nodes = ns, edges = es, gtext = processedText\<rparr>,
                    selectedPath = path,
                    tokens = map (labelOf es) path\<rparr>, frames))"

section \<open>Normalization (normalizeText)\<close>

text \<open>
  \<^verbatim>\<open>text.toLowerCase().normalize("NFD")\<close>, then \<^verbatim>\<open>replace\<close> with a regular expression
  for the range U+0300 to U+036F and the empty string, then \<^verbatim>\<open>trim()\<close>. A string is here the list of its UTF-16 code units. The four steps are the runtime's routines,
  fixed by ECMA-262 and the Unicode Standard: the lower-case mapping of the Unicode
  Character Database, canonical decomposition followed by the canonical ordering of
  combining marks, the removal of the code units U+0300 to U+036F, and the removal of white
  space and line terminators at both ends. The character data are given for the code
  units of \<open>covered\<close>: Basic Latin, the letters U+00C9 and U+00E9, the accents U+0300 and
  U+0301, the combining grapheme joiner U+034F and the Hebrew points U+05B0 and U+05B1.
  For a string with any other code unit the model gives \<open>None\<close>.
\<close>

definition covered :: "nat \<Rightarrow> bool" where
  "covered c = (c \<le> 0x7F \<or> c \<in> set [0xC9, 0xE9, 0x300, 0x301, 0x34F, 0x5B0, 0x5B1])"

text \<open>The lower-case mapping: A to Z, and U+00C9 to U+00E9.\<close>

definition lowerCase :: "nat \<Rightarrow> nat" where
  "lowerCase c = (if 0x41 \<le> c \<and> c \<le> 0x5A then c + 0x20 else if c = 0xC9 then 0xE9 else c)"

text \<open>The full canonical decomposition: U+00C9 and U+00E9 split into letter and acute accent.\<close>

definition canonicalDecomposition :: "nat \<Rightarrow> nat list" where
  "canonicalDecomposition c =
     (if c = 0xC9 then [0x45, 0x301] else if c = 0xE9 then [0x65, 0x301] else [c])"

text \<open>
  The canonical combining class: 230 for U+0300 and U+0301, 10 for U+05B0, 11 for U+05B1,
  and 0 (a starter) for the rest, the combining grapheme joiner U+034F among them.
\<close>

definition combiningClass :: "nat \<Rightarrow> nat" where
  "combiningClass c =
     (if c = 0x300 \<or> c = 0x301 then 230 else if c = 0x5B0 then 10 else if c = 0x5B1 then 11
      else 0)"

text \<open>
  The canonical ordering: every maximal run of code units of non-zero combining class is
  sorted by combining class, keeping the order of equal classes. \<open>run\<close> is the run read so
  far.
\<close>

fun canonicalOrder :: "nat list \<Rightarrow> nat list \<Rightarrow> nat list" where
  "canonicalOrder run [] = sort_key combiningClass run"
| "canonicalOrder run (c # cs) =
     (if combiningClass c = 0 then sort_key combiningClass run @ c # canonicalOrder [] cs
      else canonicalOrder (run @ [c]) cs)"

definition nfd :: "nat list \<Rightarrow> nat list" where
  "nfd s = canonicalOrder [] (concat (map canonicalDecomposition s))"

text \<open>The \<^verbatim>\<open>replace\<close> step: every code unit from U+0300 to U+036F is removed.\<close>

definition stripMarks :: "nat list \<Rightarrow> nat list" where
  "stripMarks s = filter (\<lambda>c. \<not> (0x300 \<le> c \<and> c \<le> 0x36F)) s"

text \<open>The white space and line terminators of ECMA-262, and \<^verbatim>\<open>trim\<close>.\<close>

definition whiteSpace :: "nat \<Rightarrow> bool" where
  "whiteSpace c =
     (c \<in> set [0x9, 0xA, 0xB, 0xC, 0xD, 0x20, 0xA0, 0x1680, 0x2028, 0x2029, 0x202F, 0x205F,
               0x3000, 0xFEFF] \<or> (0x2000 \<le> c \<and> c \<le> 0x200A))"

definition trim :: "nat list \<Rightarrow> nat list" where
  "trim s = rev (dropWhile whiteSpace (rev (dropWhile whiteSpace s)))"

definition normalizeText :: "nat list \<Rightarrow> nat list option" where
  "normalizeText s =
     (if list_all covered s then Some (trim (stripMarks (nfd (map lowerCase s)))) else None)"

section \<open>Notions used in the statements\<close>

text \<open>The list of edges of the lattice that \<^verbatim>\<open>buildLattice\<close> returns.\<close>

definition latticeEdges :: "string \<Rightarrow> AlgorithmType \<Rightarrow> VocabItem list option \<Rightarrow> TokenEdge list" where
  "latticeEdges tx algo customVocab = fst (buildLattice tx algo customVocab)"

text \<open>The span \<^verbatim>\<open>to - from\<close> of an edge, as the comparator of the greedy decoder reads it.\<close>

definition span :: "TokenEdge \<Rightarrow> int" where
  "span e = int (eto e) - int (efrom e)"

text \<open>
  A list of edges is a walk from \<open>a\<close> to \<open>b\<close> when the first edge starts at \<open>a\<close>, each
  edge starts where the one before it ends, and the last edge ends at \<open>b\<close>.
\<close>

fun walk :: "TokenEdge list \<Rightarrow> nat \<Rightarrow> nat \<Rightarrow> bool" where
  "walk [] a b = (a = b)"
| "walk (e # p) a b = (efrom e = a \<and> walk p (eto e) b)"

text \<open>The summed edge score of a path, added up as the decoder adds costs.\<close>

definition pathScore :: "TokenEdge list \<Rightarrow> jsval" where
  "pathScore p = foldl costPlus (Num 0) (map escore p)"

text \<open>
  What the decoders need of a list of edges over the nodes \<open>0, \<dots>, n\<close>: every edge moves
  forward, ends inside the table, and has a non-empty identifier.
\<close>

definition forwardEdges :: "nat \<Rightarrow> TokenEdge list \<Rightarrow> bool" where
  "forwardEdges n es = list_all (\<lambda>e. efrom e < eto e \<and> eto e \<le> n \<and> eid e \<noteq> []) es"

subsection \<open>Invariants of the Viterbi table\<close>

text \<open>
  The cell of node \<open>v\<close> is linked: it names no edge, or it names an edge of the list that
  ends at \<open>v\<close>, with the start of that edge as predecessor.
\<close>

definition linked :: "TokenEdge list \<Rightarrow> CostEntry list \<Rightarrow> nat \<Rightarrow> bool" where
  "linked es mc v =
     (edgeId (mc ! v) = None \<or>
      (\<exists>e\<in>set es. eto e = v \<and> edgeId (mc ! v) = Some (eid e) \<and>
                  prevNode (mc ! v) = int (efrom e)))"

text \<open>A table over the nodes \<open>0, \<dots>, n\<close> all of whose cells are linked.\<close>

definition linkedTable :: "TokenEdge list \<Rightarrow> nat \<Rightarrow> CostEntry list \<Rightarrow> bool" where
  "linkedTable es n mc = (length mc = n + 1 \<and> (\<forall>v. v \<le> n \<longrightarrow> linked es mc v))"

text \<open>Scores that are finite numbers, and the number of such a score.\<close>

fun isNum :: "jsval \<Rightarrow> bool" where
  "isNum (Num x) = True"
| "isNum v = False"

fun numOf :: "jsval \<Rightarrow> real" where
  "numOf (Num x) = x"
| "numOf v = 0"

definition numeric :: "TokenEdge list \<Rightarrow> bool" where
  "numeric es = list_all (\<lambda>e. isNum (escore e)) es"

definition pathSum :: "TokenEdge list \<Rightarrow> real" where
  "pathSum p = sum_list (map (\<lambda>e. numOf (escore e)) p)"

text \<open>A cost that is a finite number or \<^verbatim>\<open>Infinity\<close>.\<close>

fun plain :: "jsval \<Rightarrow> bool" where
  "plain (Num x) = True"
| "plain PosInf = True"
| "plain v = False"

text \<open>\<^verbatim>\<open>a <= b\<close> on such costs.\<close>

definition costLe :: "jsval \<Rightarrow> jsval \<Rightarrow> bool" where
  "costLe a b = (\<not> costLess b a)"

text \<open>An edge is relaxed in a table when the cost at its end is at most the cost through it.\<close>

definition tense :: "CostEntry list \<Rightarrow> TokenEdge \<Rightarrow> bool" where
  "tense mc e = costLe (cost (mc ! eto e)) (costPlus (cost (mc ! efrom e)) (escore e))"

text \<open>
  The cell of node \<open>v\<close> is consistent: an unreached node has no edge; a reached one names
  an edge into \<open>v\<close> that starts at a node up to \<open>i\<close>, with that start as predecessor, and its
  cost is the cost of the start plus the score of the edge.
\<close>

definition recorded :: "TokenEdge list \<Rightarrow> nat \<Rightarrow> CostEntry list \<Rightarrow> nat \<Rightarrow> bool" where
  "recorded es i mc v =
     (case cost (mc ! v) of
        Num c \<Rightarrow>
          (\<exists>e\<in>set es. eto e = v \<and> efrom e \<le> i \<and> edgeId (mc ! v) = Some (eid e) \<and>
             prevNode (mc ! v) = int (efrom e) \<and>
             costPlus (cost (mc ! efrom e)) (escore e) = Num c)
      | other \<Rightarrow> edgeId (mc ! v) = None)"

text \<open>
  The state of the relaxation over edges with finite scores when the nodes below \<open>i\<close> and
  the edges \<open>dn\<close> out of \<open>i\<close> are done.
\<close>

definition vinv :: "TokenEdge list \<Rightarrow> nat \<Rightarrow> nat \<Rightarrow> TokenEdge list \<Rightarrow> CostEntry list \<Rightarrow> bool" where
  "vinv es n i dn mc =
     (length mc = n + 1 \<and> cost (mc ! 0) = Num 0 \<and>
      (\<forall>v. v \<le> n \<longrightarrow> plain (cost (mc ! v))) \<and>
      (\<forall>v. 0 < v \<and> v \<le> n \<longrightarrow> recorded es i mc v) \<and>
      (\<forall>e\<in>set es. efrom e < i \<longrightarrow> tense mc e) \<and>
      (\<forall>e\<in>set dn. e \<in> set es \<and> efrom e = i \<and> tense mc e))"

subsection \<open>Edges without their scores\<close>

text \<open>An edge with its score erased: what remains is all the greedy decoder reads.\<close>

definition unscored :: "TokenEdge \<Rightarrow> TokenEdge" where
  "unscored e = e\<lparr>escore := Num 0\<rparr>"

subsection \<open>Replaying a trace\<close>

text \<open>
  What a consumer reads off a frame list: the path accumulated by the last frame, and the
  empty path when no frame was emitted.
\<close>

definition replayPath :: "StepFrame list \<Rightarrow> string list" where
  "replayPath frames = (if frames = [] then [] else partialPath (last frames))"

text \<open>
  The label of an edge, read off its identifier \<^verbatim>\<open>edge-<from>-<to>-<rest>\<close>: the last
  character of \<open>rest\<close> when the edge spans one character and \<open>rest\<close> is \<^verbatim>\<open>fallback-\<close>
  followed by one character, and \<open>rest\<close> itself otherwise.
\<close>

definition digit_val :: "char \<Rightarrow> nat" where
  "digit_val c = of_char c - 48"

definition read_nat :: "string \<Rightarrow> nat" where
  "read_nat s = foldl (\<lambda>n c. 10 * n + digit_val c) 0 s"

definition afterDash :: "string \<Rightarrow> string" where
  "afterDash s = drop 1 (dropWhile (\<lambda>c. c \<noteq> CHR ''-'') s)"

definition labelOfId :: "string \<Rightarrow> string" where
  "labelOfId i =
     (let r1 = drop 5 i;
          a = takeWhile (\<lambda>c. c \<noteq> CHR ''-'') r1;
          r2 = afterDash r1;
          b = takeWhile (\<lambda>c. c \<noteq> CHR ''-'') r2;
          rest = afterDash r2
      in if read_nat b = read_nat a + 1 \<and> length rest = 10 \<and> take 9 rest = ''fallback-''
         then drop 9 rest else rest)"

text \<open>The tokens a consumer reads off a frame list: the labels of the replayed path.\<close>

definition replayTokens :: "StepFrame list \<Rightarrow> string list" where
  "replayTokens frames = map labelOfId (replayPath frames)"

text \<open>A state of the traced relaxation whose frames carry no path yet.\<close>

definition noPath :: "CostEntry list \<times> StepFrame list \<Rightarrow> bool" where
  "noPath st = (replayPath (snd st) = [])"

subsection \<open>The rank table by descending score\<close>

text \<open>
  The rank table as the specification words it: the vocabulary sorted by descending raw
  score, each token mapped to its zero-based position in that order. This is how
  constants.ts fills \<^verbatim>\<open>BPE_RANKS\<close> from the built-in vocabulary.
\<close>

definition rankByDescendingScore :: "VocabItem list \<Rightarrow> (string \<rightharpoonup> nat)" where
  "rankByDescendingScore vocab = indexTable (sort_key (\<lambda>v. - vscore v) vocab)"

section \<open>Evaluation rules\<close>

lemma show_nat_small: "n < 10 \<Longrightarrow> show_nat n = [digit_char n]"
  by (simp add: show_nat.simps)

lemmas lattice_eval =
  buildLattice_def edgesAt_def matchedEdge_def findMatch_def vi_def MAX_TOKEN_LENGTH_def
  upt_conv_Cons List.map_filter_def fallbackEdge_def Let_def edgeScore_def show_nat_small
  digit_char_def

lemma greedyLoop_done:
  "\<not> current < len \<Longrightarrow> greedyLoop es len current path = Some path"
  by (subst greedyLoop.simps) simp

lemma greedyLoop_dead:
  "current < len \<Longrightarrow> filter (\<lambda>e. efrom e = current) es = [] \<Longrightarrow>
   greedyLoop es len current path = Some path"
  by (subst greedyLoop.simps) simp

lemma greedyLoop_step:
  "current < len \<Longrightarrow> filter (\<lambda>e. efrom e = current) es = c # cs \<Longrightarrow>
   greedyLoop es len current path =
     greedyLoop es len (eto (hd (sort_key spanKey (c # cs))))
       (path @ [eid (hd (sort_key spanKey (c # cs)))])"
  by (subst greedyLoop.simps) (simp add: Let_def)

section \<open>Identifiers of edges\<close>

lemma digit_char_inj: "a < 10 \<Longrightarrow> b < 10 \<Longrightarrow> digit_char a = digit_char b \<Longrightarrow> a = b"
proof -
  assume a: "a < 10" and b: "b < 10" and e: "digit_char a = digit_char b"
  have A: "a \<in> {0,1,2,3,4,5,6,7,8,9}" using a by auto
  have B: "b \<in> {0,1,2,3,4,5,6,7,8,9}" using b by auto
  from A B e show ?thesis unfolding digit_char_def by auto
qed

lemma digit_char_not_dash: "d < 10 \<Longrightarrow> digit_char d \<noteq> CHR ''-''"
proof -
  assume a: "d < 10"
  have A: "d \<in> {0,1,2,3,4,5,6,7,8,9}" using a by auto
  then show ?thesis unfolding digit_char_def by auto
qed

lemma show_nat_nonempty: "show_nat n \<noteq> []"
  by (subst show_nat.simps) simp

lemma show_nat_no_dash: "CHR ''-'' \<notin> set (show_nat n)"
proof (induction n rule: show_nat.induct)
  case (1 n)
  show ?case
  proof (cases "n < 10")
    case True
    then show ?thesis using digit_char_not_dash[of n] by (simp add: show_nat_small)
  next
    case False
    have "n mod 10 < 10" by simp
    then have "digit_char (n mod 10) \<noteq> CHR ''-''" by (rule digit_char_not_dash)
    with False 1 show ?thesis by (subst show_nat.simps) auto
  qed
qed

lemma show_nat_inj: "show_nat n = show_nat m \<Longrightarrow> n = m"
proof (induction n arbitrary: m rule: show_nat.induct)
  case (1 n)
  show ?case
  proof (cases "n < 10")
    case n: True
    show ?thesis
    proof (cases "m < 10")
      case True
      with n 1(2) show ?thesis by (simp add: show_nat_small digit_char_inj)
    next
      case False
      then have "show_nat m = show_nat (m div 10) @ [digit_char (m mod 10)]"
        by (subst show_nat.simps) simp
      with n 1(2) show ?thesis using show_nat_nonempty[of "m div 10"] by (auto simp: show_nat_small)
    qed
  next
    case n: False
    then have sn: "show_nat n = show_nat (n div 10) @ [digit_char (n mod 10)]"
      by (subst show_nat.simps) simp
    show ?thesis
    proof (cases "m < 10")
      case True
      with sn 1(2) show ?thesis using show_nat_nonempty[of "n div 10"] by (auto simp: show_nat_small)
    next
      case False
      then have sm: "show_nat m = show_nat (m div 10) @ [digit_char (m mod 10)]"
        by (subst show_nat.simps) simp
      from sn sm 1(2) have a: "show_nat (n div 10) = show_nat (m div 10)"
        and b: "digit_char (n mod 10) = digit_char (m mod 10)" by auto
      from 1(1)[OF n a] have "n div 10 = m div 10" .
      moreover from b have "n mod 10 = m mod 10" by (intro digit_char_inj) auto
      ultimately show ?thesis by (metis div_mult_mod_eq)
    qed
  qed
qed

lemma split_at_dash:
  assumes "xs @ CHR ''-'' # r = ys @ CHR ''-'' # s" "CHR ''-'' \<notin> set xs" "CHR ''-'' \<notin> set ys"
  shows "xs = ys \<and> r = s"
  using assms
proof (induction xs arbitrary: ys)
  case Nil
  then show ?case by (cases ys) auto
next
  case (Cons x xs)
  then show ?case by (cases ys) auto
qed

lemma edge_id_parse:
  assumes "''edge-'' @ show_nat a @ ''-'' @ show_nat b @ ''-'' @ r =
           ''edge-'' @ show_nat a' @ ''-'' @ show_nat b' @ ''-'' @ r'"
  shows "a = a' \<and> b = b' \<and> r = r'"
proof -
  from assms have 1: "show_nat a @ CHR ''-'' # (show_nat b @ CHR ''-'' # r) =
      show_nat a' @ CHR ''-'' # (show_nat b' @ CHR ''-'' # r')" by simp
  from split_at_dash[OF 1 show_nat_no_dash show_nat_no_dash]
  have 2: "show_nat a = show_nat a'" and 3: "show_nat b @ CHR ''-'' # r = show_nat b' @ CHR ''-'' # r'"
    by auto
  from split_at_dash[OF 3 show_nat_no_dash show_nat_no_dash]
  have "show_nat b = show_nat b'" "r = r'" by auto
  with 2 show ?thesis by (auto dest: show_nat_inj)
qed

section \<open>Structure of the lattice\<close>

lemma mem_map_filter: "y \<in> set (List.map_filter f xs) \<longleftrightarrow> (\<exists>x\<in>set xs. f x = Some y)"
  by (induction xs) (auto split: option.splits)

lemma matchedEdge_Some:
  assumes "matchedEdge tx algo vocab pr rk i j = Some e"
  shows "efrom e = i \<and> eto e = j \<and>
         eid e = ''edge-'' @ show_nat i @ ''-'' @ show_nat j @ ''-'' @ elabel e"
  using assms by (auto simp: matchedEdge_def Let_def split: option.splits)

lemma map_eto_matched:
  "map eto (List.map_filter (matchedEdge tx algo vocab pr rk i) js) =
   filter (\<lambda>j. matchedEdge tx algo vocab pr rk i j \<noteq> None) js"
  by (induction js) (auto simp: List.map_filter_simps dest: matchedEdge_Some split: option.splits)

lemma edgesAt_nonempty: "edgesAt tx algo vocab pr rk i \<noteq> []"
  by (simp add: edgesAt_def Let_def)

lemma edgesAt_cases:
  "edgesAt tx algo vocab pr rk i = [fallbackEdge tx i] \<or>
   edgesAt tx algo vocab pr rk i =
     List.map_filter (matchedEdge tx algo vocab pr rk i)
       [i + 1 ..< min (length tx) (i + MAX_TOKEN_LENGTH) + 1]"
  by (simp add: edgesAt_def Let_def)

lemma edgesAt_edge:
  assumes "e \<in> set (edgesAt tx algo vocab pr rk i)" "i < length tx"
  shows "efrom e = i \<and> i < eto e \<and> eto e \<le> length tx \<and>
         (\<exists>r. eid e = ''edge-'' @ show_nat i @ ''-'' @ show_nat (eto e) @ ''-'' @ r)"
proof -
  from edgesAt_cases[of tx algo vocab pr rk i] show ?thesis
  proof
    assume "edgesAt tx algo vocab pr rk i = [fallbackEdge tx i]"
    with assms have "e = fallbackEdge tx i" by simp
    then show ?thesis using assms(2) by (simp add: fallbackEdge_def)
  next
    assume "edgesAt tx algo vocab pr rk i =
     List.map_filter (matchedEdge tx algo vocab pr rk i)
       [i + 1 ..< min (length tx) (i + MAX_TOKEN_LENGTH) + 1]"
    with assms obtain j where j: "j \<in> set [i + 1 ..< min (length tx) (i + MAX_TOKEN_LENGTH) + 1]"
      and m: "matchedEdge tx algo vocab pr rk i j = Some e"
      by (auto simp: mem_map_filter)
    from matchedEdge_Some[OF m] j show ?thesis by auto
  qed
qed

lemma edgesAt_distinct_eto: "distinct (map eto (edgesAt tx algo vocab pr rk i))"
proof -
  from edgesAt_cases[of tx algo vocab pr rk i] show ?thesis
    by (auto simp: map_eto_matched)
qed

lemma filter_concat_from:
  assumes "\<And>k e. k < n \<Longrightarrow> e \<in> set (g k) \<Longrightarrow> efrom e = k"
  shows "filter (\<lambda>e. efrom e = i) (concat (map g [0 ..< n])) = (if i < n then g i else [])"
  using assms
proof (induction n)
  case 0
  then show ?case by simp
next
  case (Suc n)
  have a: "filter (\<lambda>e. efrom e = i) (concat (map g [0 ..< n])) = (if i < n then g i else [])"
    using Suc by simp
  have b: "filter (\<lambda>e. efrom e = i) (g n) = (if i = n then g n else [])"
    using Suc.prems[of n] by (auto simp: filter_empty_conv intro: filter_True)
  show ?case using a b by auto
qed

lemma latticeEdges_alt:
  "latticeEdges tx algo cv =
     concat (map (edgesAt tx algo (case cv of Some c \<Rightarrow> c | None \<Rightarrow> MOCK_VOCAB)
                    (case cv of Some c \<Rightarrow> softmaxTable c | None \<Rightarrow> UNIGRAM_PROBS)
                    (case cv of Some c \<Rightarrow> indexTable c | None \<Rightarrow> BPE_RANKS))
                 [0 ..< length tx])"
  by (simp add: latticeEdges_def buildLattice_def Let_def)

lemma lattice_outgoing:
  "filter (\<lambda>e. efrom e = i) (latticeEdges tx algo cv) =
     (if i < length tx
      then edgesAt tx algo (case cv of Some c \<Rightarrow> c | None \<Rightarrow> MOCK_VOCAB)
                    (case cv of Some c \<Rightarrow> softmaxTable c | None \<Rightarrow> UNIGRAM_PROBS)
                    (case cv of Some c \<Rightarrow> indexTable c | None \<Rightarrow> BPE_RANKS) i
      else [])"
  unfolding latticeEdges_alt
  by (rule filter_concat_from) (auto dest: edgesAt_edge)

lemma lattice_edge:
  assumes "e \<in> set (latticeEdges tx algo cv)"
  shows "efrom e < eto e \<and> eto e \<le> length tx \<and>
         (\<exists>r. eid e = ''edge-'' @ show_nat (efrom e) @ ''-'' @ show_nat (eto e) @ ''-'' @ r)"
proof -
  from assms obtain i where "i < length tx" 
    "e \<in> set (edgesAt tx algo (case cv of Some c \<Rightarrow> c | None \<Rightarrow> MOCK_VOCAB)
                    (case cv of Some c \<Rightarrow> softmaxTable c | None \<Rightarrow> UNIGRAM_PROBS)
                    (case cv of Some c \<Rightarrow> indexTable c | None \<Rightarrow> BPE_RANKS) i)"
    unfolding latticeEdges_alt by auto
  from edgesAt_edge[OF this(2,1)] show ?thesis by auto
qed

lemma lattice_has_outgoing:
  assumes "i < length tx"
  shows "filter (\<lambda>e. efrom e = i) (latticeEdges tx algo cv) \<noteq> []"
  using assms by (simp add: lattice_outgoing edgesAt_nonempty)

lemma lattice_span_unique:
  assumes "e1 \<in> set (latticeEdges tx algo cv)" "e2 \<in> set (latticeEdges tx algo cv)"
    "efrom e1 = efrom e2" "eto e1 = eto e2"
  shows "e1 = e2"
proof -
  let ?i = "efrom e1"
  let ?out = "filter (\<lambda>e. efrom e = ?i) (latticeEdges tx algo cv)"
  have m: "e1 \<in> set ?out" "e2 \<in> set ?out" using assms by auto
  have "distinct (map eto ?out)"
    by (simp add: lattice_outgoing edgesAt_distinct_eto)
  then have "inj_on eto (set ?out)" by (simp add: distinct_map)
  with m assms(4) show ?thesis by (auto dest: inj_onD)
qed

lemma lattice_id_inj:
  assumes "e1 \<in> set (latticeEdges tx algo cv)" "e2 \<in> set (latticeEdges tx algo cv)"
    "eid e1 = eid e2"
  shows "e1 = e2"
proof -
  from lattice_edge[OF assms(1)] obtain r1 where
    1: "eid e1 = ''edge-'' @ show_nat (efrom e1) @ ''-'' @ show_nat (eto e1) @ ''-'' @ r1" by auto
  from lattice_edge[OF assms(2)] obtain r2 where
    2: "eid e2 = ''edge-'' @ show_nat (efrom e2) @ ''-'' @ show_nat (eto e2) @ ''-'' @ r2" by auto
  from 1 2 assms(3) have "''edge-'' @ show_nat (efrom e1) @ ''-'' @ show_nat (eto e1) @ ''-'' @ r1
     = ''edge-'' @ show_nat (efrom e2) @ ''-'' @ show_nat (eto e2) @ ''-'' @ r2" by simp
  from edge_id_parse[OF this] have "efrom e1 = efrom e2" "eto e1 = eto e2" by auto
  with assms show ?thesis by (auto intro: lattice_span_unique)
qed

lemma labelOf_lattice:
  assumes "e \<in> set (latticeEdges tx algo cv)"
  shows "labelOf (latticeEdges tx algo cv) (eid e) = elabel e"
proof -
  obtain e' where f: "find (\<lambda>x. eid x = eid e) (latticeEdges tx algo cv) = Some e'"
    using assms by (cases "find (\<lambda>x. eid x = eid e) (latticeEdges tx algo cv)") (auto simp: find_None_iff)
  then have "e' \<in> set (latticeEdges tx algo cv)" "eid e' = eid e"
    by (auto simp: find_Some_iff)
  with assms have "e' = e" by (auto intro: lattice_id_inj)
  with f show ?thesis by (simp add: labelOf_def)
qed

section \<open>The greedy loop\<close>

lemma forwardEdgesD:
  "forwardEdges n es \<Longrightarrow> e \<in> set es \<Longrightarrow> efrom e < eto e \<and> eto e \<le> n \<and> eid e \<noteq> []"
  by (auto simp: forwardEdges_def list_all_iff)

lemma hd_insort_key:
  "hd (insort_key f x ys) = (if ys = [] \<or> f x \<le> f (hd ys) then x else hd ys)"
  by (cases ys) auto

lemma hd_sort_key_first_min:
  assumes "xs \<noteq> []"
  shows "\<exists>pre post. xs = pre @ hd (sort_key f xs) # post \<and>
           (\<forall>c\<in>set pre. f (hd (sort_key f xs)) < f c) \<and>
           (\<forall>c\<in>set post. f (hd (sort_key f xs)) \<le> f c)"
  using assms
proof (induction xs)
  case Nil
  then show ?case by simp
next
  case (Cons x xs)
  show ?case
  proof (cases "xs = []")
    case True
    then show ?thesis by (intro exI[of _ "[]"]) simp
  next
    case False
    let ?b = "hd (sort_key f xs)"
    from Cons.IH[OF False] obtain pre post where
      d: "xs = pre @ ?b # post" and l: "\<forall>c\<in>set pre. f ?b < f c" and r: "\<forall>c\<in>set post. f ?b \<le> f c"
      by blast
    have ne: "sort_key f xs \<noteq> []" using False by (metis length_0_conv length_sort)
    show ?thesis
    proof (cases "f x \<le> f ?b")
      case True
      then have h: "hd (sort_key f (x # xs)) = x" by (simp add: hd_insort_key)
      have "\<forall>c\<in>set xs. f x \<le> f c"
      proof
        fix c assume "c \<in> set xs"
        then have "c \<in> set pre \<or> c = ?b \<or> c \<in> set post" by (subst (asm) d) auto
        with l r True show "f x \<le> f c" by force
      qed
      with h show ?thesis by (intro exI[of _ "[]"] exI[of _ xs]) simp
    next
      case False
      then have h: "hd (sort_key f (x # xs)) = ?b" using ne by (simp add: hd_insort_key)
      have "x # xs = (x # pre) @ ?b # post" using d by simp
      moreover have "\<forall>c\<in>set (x # pre). f ?b < f c" using l False by auto
      ultimately show ?thesis unfolding h using r by blast
    qed
  qed
qed

lemma hd_sort_key_mem: "xs \<noteq> [] \<Longrightarrow> hd (sort_key f xs) \<in> set xs"
  by (metis hd_in_set length_0_conv length_sort set_sort)

lemma greedyLoop_total:
  assumes fw: "forwardEdges n es"
    and out: "\<And>i. i < n \<Longrightarrow> filter (\<lambda>e. efrom e = i) es \<noteq> []"
  shows "cur \<le> n \<Longrightarrow> \<exists>p. greedyLoop es n cur path = Some (path @ map eid p) \<and>
           set p \<subseteq> set es \<and> walk p cur n"
proof (induction "n - cur" arbitrary: cur path rule: less_induct)
  case less
  show ?case
  proof (cases "cur < n")
    case False
    with less.prems have "cur = n" by simp
    then show ?thesis by (intro exI[of _ "[]"]) (simp add: greedyLoop_done)
  next
    case True
    let ?c = "filter (\<lambda>e. efrom e = cur) es"
    from out[OF True] obtain c cs where c: "?c = c # cs" by (cases ?c) auto
    let ?b = "hd (sort_key spanKey (c # cs))"
    have "?b \<in> set ?c" unfolding c by (rule hd_sort_key_mem) simp
    then have b: "?b \<in> set es" "efrom ?b = cur" by auto
    from forwardEdgesD[OF fw b(1)] b(2) have f: "cur < eto ?b" "eto ?b \<le> n" by auto
    then have "n - eto ?b < n - cur" by arith
    from less.hyps[OF this f(2), of "path @ [eid ?b]"] obtain p where
      p: "greedyLoop es n (eto ?b) (path @ [eid ?b]) = Some ((path @ [eid ?b]) @ map eid p)"
        "set p \<subseteq> set es" "walk p (eto ?b) n" by blast
    have "greedyLoop es n cur path = Some (path @ map eid (?b # p))"
      using greedyLoop_step[OF True c, of path] p(1) by simp
    moreover have "set (?b # p) \<subseteq> set es" using b p by simp
    moreover have "walk (?b # p) cur n" using b p by simp
    ultimately show ?thesis by blast
  qed
qed

lemma walk_append: "walk (p @ q) a c \<longleftrightarrow> (\<exists>b. walk p a b \<and> walk q b c)"
  by (induction p arbitrary: a) auto

lemma walk_cover:
  assumes "walk p a b" "\<forall>e\<in>set p. efrom e < eto e"
  shows "concat (map (\<lambda>e. [efrom e ..< eto e]) p) = [a ..< b] \<and> a \<le> b"
  using assms
proof (induction p arbitrary: a)
  case Nil
  then show ?case by simp
next
  case (Cons e p)
  then have 1: "concat (map (\<lambda>e. [efrom e ..< eto e]) p) = [eto e ..< b]" "eto e \<le> b"
    and 2: "efrom e = a" "a < eto e" by auto
  have "[a ..< eto e] @ [eto e ..< b] = [a ..< b]"
    using 1(2) 2(2) by (metis less_imp_le_nat upt_add_eq_append le_Suc_ex)
  with 1 2 show ?case by simp
qed

section \<open>The Viterbi table\<close>

lemma foldOption_append:
  "foldOption f (xs @ ys) s =
     (case foldOption f xs s of None \<Rightarrow> None | Some s' \<Rightarrow> foldOption f ys s')"
  by (induction xs arbitrary: s) (auto split: option.splits)

lemma foldOption_prefix_inv:
  assumes "I [] s"
    and "\<And>pre x s. I pre s \<Longrightarrow> x \<in> set xs \<Longrightarrow> \<exists>s'. f s x = Some s' \<and> I (pre @ [x]) s'"
  shows "\<exists>s'. foldOption f xs s = Some s' \<and> I xs s'"
  using assms(2)
proof (induction xs rule: rev_induct)
  case Nil
  then show ?case using assms(1) by simp
next
  case (snoc x xs)
  have "\<exists>s'. foldOption f xs s = Some s' \<and> I xs s'"
    by (rule snoc.IH) (use snoc.prems in auto)
  then obtain s1 where s1: "foldOption f xs s = Some s1" "I xs s1" by blast
  from snoc.prems[OF s1(2), of x] obtain s2 where "f s1 x = Some s2" "I (xs @ [x]) s2" by auto
  with s1 show ?case by (simp add: foldOption_append)
qed

lemma foldOption_upt_inv:
  assumes "P 0 s"
    and "\<And>i s. i < n \<Longrightarrow> P i s \<Longrightarrow> \<exists>s'. f s i = Some s' \<and> P (Suc i) s'"
  shows "\<exists>s'. foldOption f [0 ..< n] s = Some s' \<and> P n s'"
  using assms(2)
proof (induction n)
  case 0
  then show ?case using assms(1) by simp
next
  case (Suc n)
  have "\<exists>s'. foldOption f [0 ..< n] s = Some s' \<and> P n s'"
    by (rule Suc.IH) (use Suc.prems in auto)
  then obtain s1 where s1: "foldOption f [0 ..< n] s = Some s1" "P n s1" by blast
  from Suc.prems[OF _ s1(2)] obtain s2 where "f s1 n = Some s2" "P (Suc n) s2" by auto
  with s1 show ?case by (simp add: foldOption_append)
qed

lemma relaxEdge_keep:
  assumes "eto e < length mc" "\<not> costLess (costPlus (cost (mc ! i)) (escore e)) (cost (mc ! eto e))"
  shows "relaxEdge i mc e = Some mc"
  using assms by (simp add: relaxEdge_def Let_def)

lemma relaxEdge_update:
  assumes "eto e < length mc" "costLess (costPlus (cost (mc ! i)) (escore e)) (cost (mc ! eto e))"
  shows "relaxEdge i mc e =
     Some (mc[eto e := \<lparr>cost = costPlus (cost (mc ! i)) (escore e),
                        edgeId = Some (eid e), prevNode = int i\<rparr>])"
  using assms by (simp add: relaxEdge_def Let_def)

lemma backtrack_zero: "backtrack mc 0 acc = Some acc"
  by (subst backtrack.simps) simp

lemma backtrack_stop:
  assumes "0 < v" "v < length mc" "edgeId (mc ! v) = None"
  shows "backtrack mc (int v) acc = Some acc"
  using assms by (subst backtrack.simps) simp

lemma backtrack_step:
  assumes "0 < v" "v < length mc" "edgeId (mc ! v) = Some i" "i \<noteq> []"
  shows "backtrack mc (int v) acc = backtrack mc (prevNode (mc ! v)) (i # acc)"
  using assms by (subst backtrack.simps) simp

lemma walk_snoc: "walk (p @ [e]) a b \<longleftrightarrow> walk p a (efrom e) \<and> eto e = b"
  by (induction p arbitrary: a) auto

subsection \<open>The links of the table, whatever the scores\<close>

lemma relaxEdge_linked:
  assumes fw: "forwardEdges n es" and e: "e \<in> set es" "efrom e = i"
    and inv: "linkedTable es n mc"
  shows "\<exists>mc'. relaxEdge i mc e = Some mc' \<and> linkedTable es n mc'"
proof -
  let ?w = "eto e"
  let ?new = "costPlus (cost (mc ! i)) (escore e)"
  from forwardEdgesD[OF fw e(1)] have w: "?w \<le> n" by simp
  from inv have len: "length mc = n + 1" and lk: "\<And>v. v \<le> n \<Longrightarrow> linked es mc v"
    by (auto simp: linkedTable_def)
  have wl: "?w < length mc" using w len by simp
  show ?thesis
  proof (cases "costLess ?new (cost (mc ! ?w))")
    case False
    from relaxEdge_keep[OF wl False] inv show ?thesis by blast
  next
    case True
    let ?mc = "mc[?w := \<lparr>cost = ?new, edgeId = Some (eid e), prevNode = int i\<rparr>]"
    have r: "relaxEdge i mc e = Some ?mc" using wl True by (rule relaxEdge_update)
    have "\<And>v. v \<le> n \<Longrightarrow> linked es ?mc v"
    proof -
      fix v assume v: "v \<le> n"
      show "linked es ?mc v"
      proof (cases "v = ?w")
        case True
        have "eto e = v \<and> edgeId (?mc ! v) = Some (eid e) \<and> prevNode (?mc ! v) = int (efrom e)"
          using True wl e(2) by simp
        with e(1) have "\<exists>d\<in>set es. eto d = v \<and> edgeId (?mc ! v) = Some (eid d) \<and>
                          prevNode (?mc ! v) = int (efrom d)"
          by (rule bexI[rotated])
        then show ?thesis by (simp only: linked_def) simp
      next
        case False
        then have "?mc ! v = mc ! v" by simp
        with lk[OF v] show ?thesis by (simp add: linked_def)
      qed
    qed
    then have "linkedTable es n ?mc" using len by (simp add: linkedTable_def)
    with r show ?thesis by blast
  qed
qed

lemma relaxNode_linked:
  assumes fw: "forwardEdges n es" and inv: "linkedTable es n mc"
  shows "\<exists>mc'. relaxNode es mc i = Some mc' \<and> linkedTable es n mc'"
proof (cases "cost (mc ! i) = PosInf")
  case True
  then have "relaxNode es mc i = Some mc" by (simp add: relaxNode_def)
  with inv show ?thesis by blast
next
  case False
  let ?out = "filter (\<lambda>e. efrom e = i) es"
  from False have r: "relaxNode es mc i = foldOption (relaxEdge i) ?out mc"
    by (simp add: relaxNode_def)
  have "\<exists>mc'. foldOption (relaxEdge i) ?out mc = Some mc' \<and> linkedTable es n mc'"
  proof (rule foldOption_prefix_inv[where I = "\<lambda>pre s. linkedTable es n s"])
    show "linkedTable es n mc" by (rule inv)
  next
    fix pre :: "TokenEdge list" and x s
    assume "linkedTable es n s" "x \<in> set ?out"
    then show "\<exists>s'. relaxEdge i s x = Some s' \<and> linkedTable es n s'"
      using relaxEdge_linked[OF fw, of x i s] by auto
  qed
  with r show ?thesis by simp
qed

lemma initCost_linked: "linkedTable es n (initCost n)"
proof -
  have "\<And>v. v \<le> n \<Longrightarrow> edgeId (initCost n ! v) = None"
  proof -
    fix v assume "v \<le> n"
    then show "edgeId (initCost n ! v) = None"
      by (cases "v = 0") (simp_all add: initCost_def)
  qed
  then show ?thesis by (simp add: linkedTable_def linked_def initCost_def)
qed

lemma relaxAll_linked:
  assumes fw: "forwardEdges n es"
  shows "\<exists>mc. foldOption (relaxNode es) [0 ..< n] (initCost n) = Some mc \<and> linkedTable es n mc"
proof (rule foldOption_upt_inv[where P = "\<lambda>i s. linkedTable es n s"])
  show "linkedTable es n (initCost n)" by (rule initCost_linked)
next
  fix i s assume "i < n" "linkedTable es n s"
  then show "\<exists>s'. relaxNode es s i = Some s' \<and> linkedTable es n s'"
    using relaxNode_linked[OF fw] by blast
qed

lemma backtrack_linked:
  assumes fw: "forwardEdges n es" and inv: "linkedTable es n mc"
  shows "v \<le> n \<Longrightarrow>
         \<exists>p u. backtrack mc (int v) acc = Some (map eid p @ acc) \<and> set p \<subseteq> set es \<and>
               walk p u v"
proof (induction v arbitrary: acc rule: less_induct)
  case (less v)
  have vl: "v < length mc" using inv less.prems by (simp add: linkedTable_def)
  have nil: "backtrack mc (int v) acc = Some acc \<Longrightarrow> ?case"
  proof -
    assume "backtrack mc (int v) acc = Some acc"
    then have "backtrack mc (int v) acc = Some (map eid ([] :: TokenEdge list) @ acc) \<and>
               set ([] :: TokenEdge list) \<subseteq> set es \<and> walk [] v v" by simp
    then show ?case by blast
  qed
  show ?case
  proof (cases "v = 0")
    case True
    then show ?thesis using nil by (simp add: backtrack_zero)
  next
    case False
    then have v0: "0 < v" by simp
    from inv less.prems have "linked es mc v" by (simp add: linkedTable_def)
    then show ?thesis
    proof (cases "edgeId (mc ! v)")
      case None
      from backtrack_stop[OF v0 vl None] show ?thesis by (rule nil)
    next
      case (Some i)
      with \<open>linked es mc v\<close> obtain e where e: "e \<in> set es" "eto e = v"
        "edgeId (mc ! v) = Some (eid e)" "prevNode (mc ! v) = int (efrom e)"
        by (auto simp: linked_def)
      from forwardEdgesD[OF fw e(1)] e(2) have f: "efrom e < v" "eid e \<noteq> []" by auto
      have "efrom e \<le> n" using f less.prems by simp
      from less.IH[OF f(1) this, of "eid e # acc"] obtain p :: "TokenEdge list" and u where
        p: "backtrack mc (int (efrom e)) (eid e # acc) = Some (map eid p @ eid e # acc)"
           "set p \<subseteq> set es" "walk p u (efrom e)" by blast
      from backtrack_step[OF v0 vl e(3) f(2), of acc] e(4) p(1)
      have "backtrack mc (int v) acc = Some (map eid (p @ [e]) @ acc)" by simp
      moreover have "walk (p @ [e]) u v" using p(3) e(2) by (simp add: walk_snoc)
      moreover have "set (p @ [e]) \<subseteq> set es" using p(2) e(1) by simp
      ultimately show ?thesis by blast
    qed
  qed
qed

lemma viterbi_linked:
  assumes fw: "forwardEdges n es"
  shows "\<exists>p. viterbiDecode es n = Some (map eid p) \<and> set p \<subseteq> set es"
proof -
  from relaxAll_linked[OF fw] obtain mc where
    mc: "foldOption (relaxNode es) [0 ..< n] (initCost n) = Some mc" "linkedTable es n mc" by blast
  from backtrack_linked[OF fw mc(2) le_refl, of "[]"] obtain p :: "TokenEdge list" where
    "backtrack mc (int n) [] = Some (map eid p)" "set p \<subseteq> set es" by auto
  with mc(1) show ?thesis by (auto simp: viterbiDecode_def)
qed

subsection \<open>The costs of the table, for finite scores\<close>

lemma costLe_refl: "costLe a a"
  by (cases a) (auto simp: costLe_def)

lemma costLe_trans: "plain a \<Longrightarrow> plain b \<Longrightarrow> plain c \<Longrightarrow> costLe a b \<Longrightarrow> costLe b c \<Longrightarrow> costLe a c"
  by (cases a; cases b; cases c) (auto simp: costLe_def)

lemma costLess_costLe: "costLess a b \<Longrightarrow> costLe a b"
  by (cases a; cases b) (auto simp: costLe_def)

lemma not_costLess_costLe: "\<not> costLess a b \<Longrightarrow> costLe b a"
  by (simp add: costLe_def)

lemma costLess_Num: "plain a \<Longrightarrow> costLess a b \<Longrightarrow> \<exists>x. a = Num x"
  by (cases a) auto

lemma costPlus_Num [simp]: "costPlus (Num a) (Num b) = Num (a + b)"
  by (simp add: costPlus_def)

lemma costPlus_PosInf [simp]: "costPlus PosInf (Num b) = PosInf"
  by (simp add: costPlus_def)

lemma costPlus_plain: "plain a \<Longrightarrow> isNum s \<Longrightarrow> plain (costPlus a s)"
  by (cases a; cases s) auto

lemma costPlus_eq_Num:
  "plain a \<Longrightarrow> isNum s \<Longrightarrow> costPlus a s = Num c \<Longrightarrow> \<exists>x. a = Num x \<and> c = x + numOf s"
  by (cases a; cases s) auto

lemma numericD: "numeric es \<Longrightarrow> e \<in> set es \<Longrightarrow> isNum (escore e)"
  by (simp add: numeric_def list_all_iff)

lemma relaxEdge_vinv:
  assumes fw: "forwardEdges n es" and nu: "numeric es" and e: "e \<in> set es" "efrom e = i"
    and inv: "vinv es n i dn mc"
  shows "\<exists>mc'. relaxEdge i mc e = Some mc' \<and> vinv es n i (dn @ [e]) mc'"
proof -
  let ?w = "eto e"
  let ?new = "costPlus (cost (mc ! i)) (escore e)"
  from forwardEdgesD[OF fw e(1)] e(2) have w: "i < ?w" "?w \<le> n" by auto
  from inv have len: "length mc = n + 1" and c0: "cost (mc ! 0) = Num 0"
    and pl: "\<And>v. v \<le> n \<Longrightarrow> plain (cost (mc ! v))"
    and rec: "\<And>v. 0 < v \<Longrightarrow> v \<le> n \<Longrightarrow> recorded es i mc v"
    and t1: "\<And>d. d \<in> set es \<Longrightarrow> efrom d < i \<Longrightarrow> tense mc d"
    and t2: "\<And>d. d \<in> set dn \<Longrightarrow> d \<in> set es \<and> efrom d = i \<and> tense mc d"
    by (auto simp: vinv_def)
  have wl: "?w < length mc" using w len by simp
  have iN: "i \<le> n" using w by simp
  have pnew: "plain ?new" by (rule costPlus_plain[OF pl[OF iN] numericD[OF nu e(1)]])
  show ?thesis
  proof (cases "costLess ?new (cost (mc ! ?w))")
    case False
    then have r: "relaxEdge i mc e = Some mc" using wl by (rule relaxEdge_keep[rotated])
    have "tense mc e" using not_costLess_costLe[OF False] e(2) by (simp add: tense_def)
    with inv e have "vinv es n i (dn @ [e]) mc" by (auto simp: vinv_def)
    with r show ?thesis by blast
  next
    case True
    let ?mc = "mc[?w := \<lparr>cost = ?new, edgeId = Some (eid e), prevNode = int i\<rparr>]"
    have r: "relaxEdge i mc e = Some ?mc" using wl True by (rule relaxEdge_update)
    have same: "\<And>v. v \<noteq> ?w \<Longrightarrow> ?mc ! v = mc ! v" by simp
    have low: "\<And>v. v \<le> i \<Longrightarrow> ?mc ! v = mc ! v" using w by simp
    have atw: "?mc ! ?w = \<lparr>cost = ?new, edgeId = Some (eid e), prevNode = int i\<rparr>"
      using wl by simp
    have pl': "\<And>v. v \<le> n \<Longrightarrow> plain (cost (?mc ! v))"
    proof -
      fix v assume v: "v \<le> n"
      show "plain (cost (?mc ! v))"
      proof (cases "v = ?w")
        case True
        then show ?thesis using atw pnew by simp
      next
        case False
        then show ?thesis using pl[OF v] by simp
      qed
    qed
    have dec: "\<And>v. costLe (cost (?mc ! v)) (cost (mc ! v))"
    proof -
      fix v show "costLe (cost (?mc ! v)) (cost (mc ! v))"
      proof (cases "v = ?w")
        case True
        then show ?thesis using atw costLess_costLe[OF \<open>costLess ?new (cost (mc ! ?w))\<close>] by simp
      next
        case False
        then show ?thesis by (simp add: costLe_refl)
      qed
    qed
    have keep_tense: "\<And>d. d \<in> set es \<Longrightarrow> efrom d \<le> i \<Longrightarrow> tense mc d \<Longrightarrow> tense ?mc d"
    proof -
      fix d assume d: "d \<in> set es" "efrom d \<le> i" "tense mc d"
      from forwardEdgesD[OF fw d(1)] have dn: "eto d \<le> n" by simp
      have fn: "efrom d \<le> n" using d(2) iN by simp
      have a: "?mc ! efrom d = mc ! efrom d" by (rule low[OF d(2)])
      have b: "costLe (cost (?mc ! eto d)) (cost (mc ! eto d))" by (rule dec)
      from d(3) have c: "costLe (cost (mc ! eto d)) (costPlus (cost (mc ! efrom d)) (escore d))"
        by (simp only: tense_def)
      have p3: "plain (costPlus (cost (mc ! efrom d)) (escore d))"
        by (rule costPlus_plain[OF pl[OF fn] numericD[OF nu d(1)]])
      from costLe_trans[OF pl'[OF dn] pl[OF dn] p3 b c] show "tense ?mc d"
        by (simp only: tense_def a)
    qed
    have te: "tense ?mc e"
      unfolding tense_def using atw low[of i] e(2) by (simp add: costLe_refl)
    have rec': "\<And>v. 0 < v \<Longrightarrow> v \<le> n \<Longrightarrow> recorded es i ?mc v"
    proof -
      fix v assume v: "0 < v" "v \<le> n"
      show "recorded es i ?mc v"
      proof (cases "v = ?w")
        case True
        from costLess_Num[OF pnew \<open>costLess ?new (cost (mc ! ?w))\<close>] obtain x where x: "?new = Num x" by blast
        have cw: "cost (?mc ! v) = Num x" "edgeId (?mc ! v) = Some (eid e)"
          "prevNode (?mc ! v) = int i"
          unfolding True atw using x by simp_all
        have ei: "?mc ! efrom e = mc ! i" using low[of i] e(2) by simp
        have "eto e = v \<and> efrom e \<le> i \<and> edgeId (?mc ! v) = Some (eid e) \<and>
              prevNode (?mc ! v) = int (efrom e) \<and>
              costPlus (cost (?mc ! efrom e)) (escore e) = Num x"
          unfolding ei cw using True e(2) x by simp
        with e(1) have "\<exists>d\<in>set es. eto d = v \<and> efrom d \<le> i \<and> edgeId (?mc ! v) = Some (eid d) \<and>
              prevNode (?mc ! v) = int (efrom d) \<and>
              costPlus (cost (?mc ! efrom d)) (escore d) = Num x"
          by (rule bexI[rotated])
        then show ?thesis unfolding recorded_def cw(1) by simp
      next
        case False
        from rec[OF v] have old: "recorded es i mc v" .
        show ?thesis
        proof (cases "cost (mc ! v)")
          case (Num c)
          with old obtain d where d: "d \<in> set es" "eto d = v" "efrom d \<le> i"
            "edgeId (mc ! v) = Some (eid d)" "prevNode (mc ! v) = int (efrom d)"
            "costPlus (cost (mc ! efrom d)) (escore d) = Num c"
            by (auto simp: recorded_def)
          have "?mc ! efrom d = mc ! efrom d" using low[OF d(3)] .
          with d Num False show ?thesis unfolding recorded_def same[OF False] by auto
        qed (use old False in \<open>simp_all add: recorded_def\<close>)
      qed
    qed
    have "vinv es n i (dn @ [e]) ?mc"
      unfolding vinv_def
    proof (intro conjI)
      show "length ?mc = n + 1" using len by simp
      show "cost (?mc ! 0) = Num 0" using c0 low[of 0] by simp
      show "\<forall>v. v \<le> n \<longrightarrow> plain (cost (?mc ! v))" using pl' by blast
      show "\<forall>v. 0 < v \<and> v \<le> n \<longrightarrow> recorded es i ?mc v" using rec' by blast
      show "\<forall>d\<in>set es. efrom d < i \<longrightarrow> tense ?mc d" using t1 keep_tense by auto
      show "\<forall>d\<in>set (dn @ [e]). d \<in> set es \<and> efrom d = i \<and> tense ?mc d"
        using t2 keep_tense te e by auto
    qed
    with r show ?thesis by blast
  qed
qed

lemma recorded_mono: "recorded es i mc v \<Longrightarrow> i \<le> j \<Longrightarrow> recorded es j mc v"
proof (cases "cost (mc ! v)")
  case (Num c)
  assume r: "recorded es i mc v" and ij: "i \<le> j"
  from r Num obtain e where e: "e \<in> set es" "eto e = v" "efrom e \<le> i"
    "edgeId (mc ! v) = Some (eid e)" "prevNode (mc ! v) = int (efrom e)"
    "costPlus (cost (mc ! efrom e)) (escore e) = Num c"
    by (auto simp: recorded_def)
  from e(3) ij have "efrom e \<le> j" by simp
  with e Num show "recorded es j mc v" unfolding recorded_def by auto
qed (simp_all add: recorded_def)

lemma vinv_next:
  assumes "vinv es n i dn mc" "\<And>e. e \<in> set es \<Longrightarrow> efrom e = i \<Longrightarrow> tense mc e"
  shows "vinv es n (Suc i) [] mc"
proof -
  from assms(1) have len: "length mc = n + 1" and c0: "cost (mc ! 0) = Num 0"
    and pl: "\<And>v. v \<le> n \<Longrightarrow> plain (cost (mc ! v))"
    and rec: "\<And>v. 0 < v \<Longrightarrow> v \<le> n \<Longrightarrow> recorded es i mc v"
    and t1: "\<And>d. d \<in> set es \<Longrightarrow> efrom d < i \<Longrightarrow> tense mc d"
    by (auto simp: vinv_def)
  have "\<And>v. 0 < v \<Longrightarrow> v \<le> n \<Longrightarrow> recorded es (Suc i) mc v"
    using rec recorded_mono[of es i mc _ "Suc i"] by simp
  moreover have "\<And>d. d \<in> set es \<Longrightarrow> efrom d < Suc i \<Longrightarrow> tense mc d"
    using t1 assms(2) by (auto simp: less_Suc_eq)
  ultimately show ?thesis using len c0 pl by (simp add: vinv_def)
qed

lemma relaxNode_vinv:
  assumes fw: "forwardEdges n es" and nu: "numeric es" and i: "i < n"
    and inv: "vinv es n i [] mc"
  shows "\<exists>mc'. relaxNode es mc i = Some mc' \<and> vinv es n (Suc i) [] mc'"
proof (cases "cost (mc ! i) = PosInf")
  case True
  then have r: "relaxNode es mc i = Some mc" by (simp add: relaxNode_def)
  have "\<And>e. e \<in> set es \<Longrightarrow> efrom e = i \<Longrightarrow> tense mc e"
  proof -
    fix e assume e: "e \<in> set es" "efrom e = i"
    from numericD[OF nu e(1)] obtain s where "escore e = Num s" by (cases "escore e") auto
    with True e(2) show "tense mc e" by (simp add: tense_def costLe_def)
  qed
  from vinv_next[OF inv this] r show ?thesis by blast
next
  case False
  let ?out = "filter (\<lambda>e. efrom e = i) es"
  from False have r: "relaxNode es mc i = foldOption (relaxEdge i) ?out mc"
    by (simp add: relaxNode_def)
  have "\<exists>mc'. foldOption (relaxEdge i) ?out mc = Some mc' \<and> vinv es n i ?out mc'"
  proof (rule foldOption_prefix_inv[where I = "\<lambda>pre s. vinv es n i pre s"])
    show "vinv es n i [] mc" by (rule inv)
  next
    fix pre x s assume "vinv es n i pre s" "x \<in> set ?out"
    then show "\<exists>s'. relaxEdge i s x = Some s' \<and> vinv es n i (pre @ [x]) s'"
      using relaxEdge_vinv[OF fw nu, of x i pre s] by auto
  qed
  then obtain mc' where m: "foldOption (relaxEdge i) ?out mc = Some mc'" "vinv es n i ?out mc'"
    by blast
  have "\<And>e. e \<in> set es \<Longrightarrow> efrom e = i \<Longrightarrow> tense mc' e"
    using m(2) by (auto simp: vinv_def)
  from vinv_next[OF m(2) this] m(1) r show ?thesis by simp
qed

lemma initCost_vinv: "vinv es n 0 [] (initCost n)"
proof -
  have a: "\<And>v. 0 < v \<Longrightarrow> v \<le> n \<Longrightarrow> initCost n ! v = \<lparr>cost = PosInf, edgeId = None, prevNode = - 1\<rparr>"
    by (simp add: initCost_def)
  have "\<And>v. v \<le> n \<Longrightarrow> plain (cost (initCost n ! v))"
  proof -
    fix v assume "v \<le> n"
    then show "plain (cost (initCost n ! v))" by (cases "v = 0") (simp_all add: initCost_def)
  qed
  with a show ?thesis
    by (auto simp: vinv_def recorded_def initCost_def)
qed

lemma relaxAll_vinv:
  assumes fw: "forwardEdges n es" and nu: "numeric es"
  shows "\<exists>mc. foldOption (relaxNode es) [0 ..< n] (initCost n) = Some mc \<and> vinv es n n [] mc"
proof (rule foldOption_upt_inv[where P = "\<lambda>i s. vinv es n i [] s"])
  show "vinv es n 0 [] (initCost n)" by (rule initCost_vinv)
next
  fix i s assume "i < n" "vinv es n i [] s"
  then show "\<exists>s'. relaxNode es s i = Some s' \<and> vinv es n (Suc i) [] s'"
    using relaxNode_vinv[OF fw nu] by blast
qed

lemma pathSum_snoc: "pathSum (p @ [e]) = pathSum p + numOf (escore e)"
  by (simp add: pathSum_def)

lemma foldl_costPlus_Num:
  "list_all (\<lambda>e. isNum (escore e)) p \<Longrightarrow>
   foldl costPlus (Num a) (map escore p) = Num (a + sum_list (map (\<lambda>e. numOf (escore e)) p))"
proof (induction p arbitrary: a)
  case Nil
  then show ?case by simp
next
  case (Cons e p)
  from Cons.prems obtain s where s: "escore e = Num s" by (cases "escore e") auto
  from Cons.prems have "list_all (\<lambda>e. isNum (escore e)) p" by simp
  from Cons.IH[OF this, of "a + s"] s show ?case by (simp add: add.assoc)
qed

lemma pathScore_numeric: "numeric p \<Longrightarrow> pathScore p = Num (pathSum p)"
  using foldl_costPlus_Num[of p 0] by (simp add: pathScore_def pathSum_def numeric_def)

lemma tense_walk_bound:
  assumes t: "\<And>e. e \<in> set es \<Longrightarrow> tense mc e" and nu: "numeric es"
    and fw: "forwardEdges n es" and pl: "\<And>v. v \<le> n \<Longrightarrow> plain (cost (mc ! v))"
  shows "walk p u v \<Longrightarrow> set p \<subseteq> set es \<Longrightarrow> cost (mc ! u) = Num a \<Longrightarrow>
         \<exists>b. cost (mc ! v) = Num b \<and> b \<le> a + pathSum p"
proof (induction p arbitrary: u a)
  case Nil
  then show ?case by (simp add: pathSum_def)
next
  case (Cons e p)
  then have e: "e \<in> set es" "efrom e = u" and w: "walk p (eto e) v" and s: "set p \<subseteq> set es"
    by auto
  from numericD[OF nu e(1)] obtain x where x: "escore e = Num x" by (cases "escore e") auto
  from forwardEdgesD[OF fw e(1)] have "plain (cost (mc ! eto e))" by (simp add: pl)
  with t[OF e(1)] Cons.prems(3) e(2) x obtain c where
    c: "cost (mc ! eto e) = Num c" "c \<le> a + x"
    by (cases "cost (mc ! eto e)") (auto simp: tense_def costLe_def)
  from Cons.IH[OF w s c(1)] obtain b where b: "cost (mc ! v) = Num b" "b \<le> c + pathSum p"
    by blast
  with c x show ?case by (auto simp: pathSum_def)
qed

lemma backtrack_walk:
  assumes fw: "forwardEdges n es" and nu: "numeric es" and inv: "vinv es n n [] mc"
  shows "v \<le> n \<Longrightarrow> cost (mc ! v) = Num c \<Longrightarrow>
         \<exists>p. backtrack mc (int v) acc = Some (map eid p @ acc) \<and> walk p 0 v \<and>
             set p \<subseteq> set es \<and> pathSum p = c"
proof (induction v arbitrary: c acc rule: less_induct)
  case (less v)
  show ?case
  proof (cases "v = 0")
    case True
    with less.prems inv have "c = 0" by (simp add: vinv_def)
    with True show ?thesis
      by (intro exI[of _ "[]"]) (simp add: backtrack_zero pathSum_def)
  next
    case False
    with less.prems inv have "recorded es n mc v" by (simp add: vinv_def)
    with less.prems obtain e where e: "e \<in> set es" "eto e = v"
      "edgeId (mc ! v) = Some (eid e)" "prevNode (mc ! v) = int (efrom e)"
      "costPlus (cost (mc ! efrom e)) (escore e) = Num c"
      by (auto simp: recorded_def)
    from forwardEdgesD[OF fw e(1)] e(2) have f: "efrom e < v" "eid e \<noteq> []" by auto
    have le: "efrom e \<le> n" using f less.prems by simp
    from inv le have "plain (cost (mc ! efrom e))" by (simp add: vinv_def)
    from costPlus_eq_Num[OF this numericD[OF nu e(1)] e(5)] obtain c' where
      c': "cost (mc ! efrom e) = Num c'" "c = c' + numOf (escore e)" by blast
    from less.IH[OF f(1) le c'(1), of "eid e # acc"] obtain p where
      p: "backtrack mc (int (efrom e)) (eid e # acc) = Some (map eid p @ eid e # acc)"
         "walk p 0 (efrom e)" "set p \<subseteq> set es" "pathSum p = c'" by blast
    have "v < length mc" using inv less.prems by (simp add: vinv_def)
    from backtrack_step[OF _ this e(3) f(2), of acc] False e(4) p(1)
    have "backtrack mc (int v) acc = Some (map eid (p @ [e]) @ acc)" by simp
    moreover have "walk (p @ [e]) 0 v" using p(2) e(2) by (simp add: walk_snoc)
    moreover have "set (p @ [e]) \<subseteq> set es" using p(3) e(1) by simp
    moreover have "pathSum (p @ [e]) = c" using p(4) c'(2) by (simp add: pathSum_snoc)
    ultimately show ?thesis by blast
  qed
qed

lemma viterbi_optimal:
  assumes fw: "forwardEdges n es" and nu: "numeric es"
    and reach: "walk q 0 n" "set q \<subseteq> set es"
  shows "\<exists>p. viterbiDecode es n = Some (map eid p) \<and> walk p 0 n \<and> set p \<subseteq> set es \<and>
           (\<forall>r. walk r 0 n \<and> set r \<subseteq> set es \<longrightarrow> pathSum p \<le> pathSum r)"
proof -
  from relaxAll_vinv[OF fw nu] obtain mc where
    mc: "foldOption (relaxNode es) [0 ..< n] (initCost n) = Some mc" "vinv es n n [] mc" by blast
  have t: "\<And>e. e \<in> set es \<Longrightarrow> tense mc e"
  proof -
    fix e assume e: "e \<in> set es"
    from forwardEdgesD[OF fw e] have "efrom e < n" by simp
    with mc(2) e show "tense mc e" by (simp add: vinv_def)
  qed
  have c0: "cost (mc ! 0) = Num 0" using mc(2) by (simp add: vinv_def)
  have pl: "\<And>v. v \<le> n \<Longrightarrow> plain (cost (mc ! v))" using mc(2) by (simp add: vinv_def)
  from tense_walk_bound[OF t nu fw pl reach c0] obtain c where c: "cost (mc ! n) = Num c" by blast
  from backtrack_walk[OF fw nu mc(2) le_refl c, of "[]"] obtain p where
    p: "backtrack mc (int n) [] = Some (map eid p)" "walk p 0 n" "set p \<subseteq> set es" "pathSum p = c"
    by (metis append_Nil2)
  have "\<forall>r. walk r 0 n \<and> set r \<subseteq> set es \<longrightarrow> pathSum p \<le> pathSum r"
  proof (intro allI impI)
    fix r assume "walk r 0 n \<and> set r \<subseteq> set es"
    then have "walk r 0 n" "set r \<subseteq> set es" by auto
    from tense_walk_bound[OF t nu fw pl this c0] obtain b where "cost (mc ! n) = Num b" "b \<le> 0 + pathSum r" by blast
    with c p(4) show "pathSum p \<le> pathSum r" by simp
  qed
  moreover have "viterbiDecode es n = Some (map eid p)"
    using mc(1) p(1) by (simp add: viterbiDecode_def)
  ultimately show ?thesis using p by blast
qed

section \<open>The entry point on a lattice\<close>

lemma lattice_forward: "forwardEdges (length tx) (latticeEdges tx algo cv)"
  unfolding forwardEdges_def list_all_iff
proof
  fix e assume "e \<in> set (latticeEdges tx algo cv)"
  from lattice_edge[OF this] show "efrom e < eto e \<and> eto e \<le> length tx \<and> eid e \<noteq> []"
    by auto
qed

lemma buildLattice_nodes: "snd (buildLattice tx algo cv) = [0 ..< length tx + 1]"
  by (simp add: buildLattice_def Let_def)

lemma buildLattice_pair:
  "buildLattice tx algo cv = (latticeEdges tx algo cv, [0 ..< length tx + 1])"
  by (simp add: latticeEdges_def buildLattice_def Let_def)

lemma tokenize_alt:
  "tokenize f inp algo nz cv =
     map_option
       (\<lambda>path. \<lparr>graph = \<lparr>nodes = [0 ..< length (if nz then f inp else inp) + 1],
                          edges = latticeEdges (if nz then f inp else inp) algo cv,
                          gtext = (if nz then f inp else inp)\<rparr>,
                selectedPath = path,
                tokens = map (labelOf (latticeEdges (if nz then f inp else inp) algo cv)) path\<rparr>)
       (if algo = UNIGRAM
        then viterbiDecode (latticeEdges (if nz then f inp else inp) algo cv)
               (length (if nz then f inp else inp))
        else greedyDecode (latticeEdges (if nz then f inp else inp) algo cv)
               (length (if nz then f inp else inp)))"
proof -
  have "buildLattice (if nz then f inp else inp) algo cv =
        (latticeEdges (if nz then f inp else inp) algo cv, [0 ..< length (if nz then f inp else inp) + 1])"
    by (rule buildLattice_pair)
  then show ?thesis
    unfolding tokenize_def Let_def by (simp split: option.splits)
qed

lemma greedy_lattice:
  "\<exists>p. greedyDecode (latticeEdges tx algo cv) (length tx) = Some (map eid p) \<and>
       set p \<subseteq> set (latticeEdges tx algo cv) \<and> walk p 0 (length tx)"
proof -
  have "\<exists>p. greedyLoop (latticeEdges tx algo cv) (length tx) 0 [] = Some ([] @ map eid p) \<and>
       set p \<subseteq> set (latticeEdges tx algo cv) \<and> walk p 0 (length tx)"
    by (rule greedyLoop_total[OF lattice_forward]) (simp_all add: lattice_has_outgoing)
  then show ?thesis by (simp add: greedyDecode_def)
qed

lemma viterbi_lattice:
  assumes "numeric (latticeEdges tx algo cv)"
  shows "\<exists>p. viterbiDecode (latticeEdges tx algo cv) (length tx) = Some (map eid p) \<and>
       set p \<subseteq> set (latticeEdges tx algo cv) \<and> walk p 0 (length tx) \<and>
       (\<forall>r. walk r 0 (length tx) \<and> set r \<subseteq> set (latticeEdges tx algo cv) \<longrightarrow>
            pathSum p \<le> pathSum r)"
proof -
  from greedy_lattice[of tx algo cv] obtain q where
    q: "walk q 0 (length tx)" "set q \<subseteq> set (latticeEdges tx algo cv)" by blast
  from viterbi_optimal[OF lattice_forward assms q] show ?thesis by blast
qed

lemma decode_lattice:
  assumes "algo = UNIGRAM \<Longrightarrow> numeric (latticeEdges tx algo cv)"
  shows "\<exists>p. (if algo = UNIGRAM then viterbiDecode (latticeEdges tx algo cv) (length tx)
        else greedyDecode (latticeEdges tx algo cv) (length tx)) = Some (map eid p) \<and>
       set p \<subseteq> set (latticeEdges tx algo cv) \<and> walk p 0 (length tx)"
proof (cases "algo = UNIGRAM")
  case True
  from viterbi_lattice[OF assms[OF True]] True show ?thesis by auto
next
  case False
  with greedy_lattice[of tx algo cv] show ?thesis by auto
qed

lemma decode_path:
  "\<exists>p. (if algo = UNIGRAM then viterbiDecode (latticeEdges tx algo cv) (length tx)
        else greedyDecode (latticeEdges tx algo cv) (length tx)) = Some (map eid p) \<and>
       set p \<subseteq> set (latticeEdges tx algo cv)"
proof (cases "algo = UNIGRAM")
  case True
  from viterbi_linked[OF lattice_forward, of tx algo cv] True show ?thesis by auto
next
  case False
  with greedy_lattice[of tx algo cv] show ?thesis by auto
qed

lemma labels_of_lattice_path:
  "set p \<subseteq> set (latticeEdges tx algo cv) \<Longrightarrow>
   map (labelOf (latticeEdges tx algo cv)) (map eid p) = map elabel p"
  by (induction p) (auto simp: labelOf_lattice)

section \<open>The greedy loop on forward edges\<close>

lemma spanKey_span: "spanKey e = - span e"
  by (simp add: spanKey_def span_def)

lemma greedyLoop_partial:
  assumes fw: "forwardEdges n es"
  shows "\<exists>p v. greedyLoop es n cur path = Some (path @ map eid p) \<and>
           set p \<subseteq> set es \<and> walk p cur v \<and>
           (n \<le> v \<or> filter (\<lambda>e. efrom e = v) es = []) \<and>
           (\<forall>b\<in>set p. efrom b < n \<and> b = hd (sort_key spanKey (filter (\<lambda>e. efrom e = efrom b) es)))"
proof (induction "n - cur" arbitrary: cur path rule: less_induct)
  case less
  show ?case
  proof (cases "cur < n")
    case False
    then show ?thesis by (intro exI[of _ "[]"] exI[of _ cur]) (simp add: greedyLoop_done)
  next
    case True
    let ?c = "filter (\<lambda>e. efrom e = cur) es"
    show ?thesis
    proof (cases ?c)
      case Nil
      with True show ?thesis
        by (intro exI[of _ "[]"] exI[of _ cur]) (simp add: greedyLoop_dead)
    next
      case (Cons c cs)
      let ?b = "hd (sort_key spanKey (c # cs))"
      have "?b \<in> set ?c" unfolding Cons by (rule hd_sort_key_mem) simp
      then have b: "?b \<in> set es" "efrom ?b = cur" by auto
      from forwardEdgesD[OF fw b(1)] b(2) have f: "cur < eto ?b" "eto ?b \<le> n" by auto
      then have "n - eto ?b < n - cur" by arith
      from less.hyps[OF this, of "path @ [eid ?b]"] obtain p v where
        p: "greedyLoop es n (eto ?b) (path @ [eid ?b]) = Some ((path @ [eid ?b]) @ map eid p)"
          "set p \<subseteq> set es" "walk p (eto ?b) v"
          "n \<le> v \<or> filter (\<lambda>e. efrom e = v) es = []"
          "\<forall>b\<in>set p. efrom b < n \<and> b = hd (sort_key spanKey (filter (\<lambda>e. efrom e = efrom b) es))"
        by blast
      have "greedyLoop es n cur path = Some (path @ map eid (?b # p))"
        using greedyLoop_step[OF True Cons, of path] p(1) by simp
      moreover have "set (?b # p) \<subseteq> set es" using b p by simp
      moreover have "walk (?b # p) cur v" using b p by simp
      moreover have "\<forall>b\<in>set (?b # p). efrom b < n \<and> b = hd (sort_key spanKey (filter (\<lambda>e. efrom e = efrom b) es))"
        using p(5) b(2) True Cons by simp
      ultimately show ?thesis using p(4) by blast
    qed
  qed
qed

section \<open>Positions without a match\<close>

lemma map_filter_empty_iff: "List.map_filter f xs = [] \<longleftrightarrow> (\<forall>x\<in>set xs. f x = None)"
  by (induction xs) (auto split: option.splits)

lemma matchedEdge_None_iff:
  "matchedEdge tx algo vocab pr rk i j = None \<longleftrightarrow>
   findMatch vocab algo i (take (j - i) (drop i tx)) = None"
  by (simp add: matchedEdge_def Let_def split: option.splits)

lemma edgesAt_fallback:
  assumes "\<forall>j\<in>{i + 1 .. min (length tx) (i + MAX_TOKEN_LENGTH)}.
             findMatch vocab algo i (take (j - i) (drop i tx)) = None"
  shows "edgesAt tx algo vocab pr rk i = [fallbackEdge tx i]"
proof -
  have "set [i + 1 ..< min (length tx) (i + MAX_TOKEN_LENGTH) + 1] =
        {i + 1 .. min (length tx) (i + MAX_TOKEN_LENGTH)}" by auto
  with assms have "List.map_filter (matchedEdge tx algo vocab pr rk i)
          [i + 1 ..< min (length tx) (i + MAX_TOKEN_LENGTH) + 1] = []"
    unfolding map_filter_empty_iff matchedEdge_None_iff by simp
  then show ?thesis by (simp add: edgesAt_def Let_def)
qed

section \<open>The greedy decoder does not read scores\<close>

lemma unscored_fields [simp]:
  "eid (unscored e) = eid e" "efrom (unscored e) = efrom e" "eto (unscored e) = eto e"
  "elabel (unscored e) = elabel e" "spanKey (unscored e) = spanKey e"
  by (simp_all add: unscored_def spanKey_def)

lemma find_token_map:
  "map_option token (find (\<lambda>v. token v = s) vs) = find (\<lambda>t. t = s) (map token vs)"
  by (induction vs) auto

lemma findMatch_tokens:
  assumes "map token v1 = map token v2"
  shows "map_option token (findMatch v1 algo i s) = map_option token (findMatch v2 algo i s)"
proof -
  have a: "\<And>s. map_option token (find (\<lambda>v. token v = s) v1) =
                map_option token (find (\<lambda>v. token v = s) v2)"
    by (simp add: find_token_map assms)
  show ?thesis
  proof (cases "find (\<lambda>v. token v = s) v1")
    case None
    with a[of s] have "find (\<lambda>v. token v = s) v2 = None" by simp
    with None a[of "''##'' @ s"] show ?thesis by (simp add: findMatch_def)
  next
    case (Some m)
    with a[of s] obtain m' where "find (\<lambda>v. token v = s) v2 = Some m'" "token m' = token m"
      by (cases "find (\<lambda>v. token v = s) v2") auto
    with Some show ?thesis by (simp add: findMatch_def)
  qed
qed

lemma matchedEdge_unscored:
  assumes "map token v1 = map token v2"
  shows "map_option unscored (matchedEdge tx algo v1 pr1 rk1 i j) =
         map_option unscored (matchedEdge tx algo v2 pr2 rk2 i j)"
proof -
  let ?s = "take (j - i) (drop i tx)"
  from findMatch_tokens[OF assms, of algo i ?s]
  show ?thesis
    by (cases "findMatch v1 algo i ?s"; cases "findMatch v2 algo i ?s")
       (auto simp: matchedEdge_def Let_def unscored_def)
qed

lemma map_map_filter: "map g (List.map_filter f xs) = List.map_filter (\<lambda>x. map_option g (f x)) xs"
  by (induction xs) (auto split: option.splits)

lemma edgesAt_unscored:
  assumes "map token v1 = map token v2"
  shows "map unscored (edgesAt tx algo v1 pr1 rk1 i) = map unscored (edgesAt tx algo v2 pr2 rk2 i)"
proof -
  let ?js = "[i + 1 ..< min (length tx) (i + MAX_TOKEN_LENGTH) + 1]"
  let ?m1 = "List.map_filter (matchedEdge tx algo v1 pr1 rk1 i) ?js"
  let ?m2 = "List.map_filter (matchedEdge tx algo v2 pr2 rk2 i) ?js"
  have e: "map unscored ?m1 = map unscored ?m2"
    unfolding map_map_filter using matchedEdge_unscored[OF assms] by metis
  then have "?m1 = [] \<longleftrightarrow> ?m2 = []" by (metis map_is_Nil_conv)
  with e show ?thesis by (simp add: edgesAt_def Let_def)
qed

lemma lattice_unscored:
  assumes "map token v1 = map token v2"
  shows "map unscored (latticeEdges tx algo (Some v1)) = map unscored (latticeEdges tx algo (Some v2))"
proof -
  have "\<And>x. map unscored (edgesAt tx algo v1 (softmaxTable v1) (indexTable v1) x) =
             map unscored (edgesAt tx algo v2 (softmaxTable v2) (indexTable v2) x)"
    by (rule edgesAt_unscored[OF assms])
  then show ?thesis
    unfolding latticeEdges_alt map_concat by (simp add: comp_def)
qed

lemma insort_key_unscored:
  "map unscored (insort_key spanKey x xs) = insort_key spanKey (unscored x) (map unscored xs)"
  by (induction xs) auto

lemma sort_key_unscored:
  "map unscored (sort_key spanKey xs) = sort_key spanKey (map unscored xs)"
  by (induction xs) (auto simp: insort_key_unscored)

lemma filter_from_unscored:
  "map unscored (filter (\<lambda>e. efrom e = c) es) = filter (\<lambda>e. efrom e = c) (map unscored es)"
  by (induction es) auto

lemma best_unscored:
  assumes "map unscored es1 = map unscored es2"
  shows "map unscored (filter (\<lambda>e. efrom e = c) es1) = map unscored (filter (\<lambda>e. efrom e = c) es2)"
    and "filter (\<lambda>e. efrom e = c) es1 \<noteq> [] \<Longrightarrow>
         unscored (hd (sort_key spanKey (filter (\<lambda>e. efrom e = c) es1))) =
         unscored (hd (sort_key spanKey (filter (\<lambda>e. efrom e = c) es2)))"
proof -
  show f: "map unscored (filter (\<lambda>e. efrom e = c) es1) = map unscored (filter (\<lambda>e. efrom e = c) es2)"
    by (simp add: filter_from_unscored assms)
  assume ne: "filter (\<lambda>e. efrom e = c) es1 \<noteq> []"
  then have ne2: "filter (\<lambda>e. efrom e = c) es2 \<noteq> []" using f by (metis map_is_Nil_conv)
  have s1: "sort_key spanKey (filter (\<lambda>e. efrom e = c) es1) \<noteq> []"
    using ne by (metis length_0_conv length_sort)
  have s2: "sort_key spanKey (filter (\<lambda>e. efrom e = c) es2) \<noteq> []"
    using ne2 by (metis length_0_conv length_sort)
  have "map unscored (sort_key spanKey (filter (\<lambda>e. efrom e = c) es1)) =
        map unscored (sort_key spanKey (filter (\<lambda>e. efrom e = c) es2))"
    by (simp add: sort_key_unscored f)
  then have "hd (map unscored (sort_key spanKey (filter (\<lambda>e. efrom e = c) es1))) =
        hd (map unscored (sort_key spanKey (filter (\<lambda>e. efrom e = c) es2)))" by simp
  then show "unscored (hd (sort_key spanKey (filter (\<lambda>e. efrom e = c) es1))) =
         unscored (hd (sort_key spanKey (filter (\<lambda>e. efrom e = c) es2)))"
    by (simp add: hd_map s1 s2)
qed

lemma greedyLoop_unscored:
  assumes fw: "forwardEdges n es1" and eq: "map unscored es1 = map unscored es2"
  shows "greedyLoop es1 n cur path = greedyLoop es2 n cur path"
proof (induction "n - cur" arbitrary: cur path rule: less_induct)
  case less
  show ?case
  proof (cases "cur < n")
    case False
    then show ?thesis by (simp add: greedyLoop_done)
  next
    case True
    let ?c1 = "filter (\<lambda>e. efrom e = cur) es1"
    let ?c2 = "filter (\<lambda>e. efrom e = cur) es2"
    have f: "map unscored ?c1 = map unscored ?c2" by (rule best_unscored(1)[OF eq])
    show ?thesis
    proof (cases ?c1)
      case Nil
      with f have "?c2 = []" by simp
      with Nil True show ?thesis by (simp add: greedyLoop_dead)
    next
      case (Cons c cs)
      with f obtain d ds where c2: "?c2 = d # ds" by (cases ?c2) auto
      let ?b1 = "hd (sort_key spanKey (c # cs))"
      let ?b2 = "hd (sort_key spanKey (d # ds))"
      have "unscored ?b1 = unscored ?b2"
        using best_unscored(2)[OF eq, of cur] Cons c2 by simp
      then have b: "eto ?b1 = eto ?b2" "eid ?b1 = eid ?b2"
        by (metis unscored_fields(3), metis unscored_fields(1))
      have "?b1 \<in> set ?c1" unfolding Cons by (rule hd_sort_key_mem) simp
      then have "?b1 \<in> set es1" "efrom ?b1 = cur" by auto
      with forwardEdgesD[OF fw] have "cur < eto ?b1" "eto ?b1 \<le> n" by auto
      then have "n - eto ?b1 < n - cur" by arith
      from less.hyps[OF this, of "path @ [eid ?b1]"]
      show ?thesis
        unfolding greedyLoop_step[OF True Cons] greedyLoop_step[OF True c2] b .
    qed
  qed
qed

lemma find_id_unscored:
  "find (\<lambda>e. eid e = i) (map unscored es) = map_option unscored (find (\<lambda>e. eid e = i) es)"
  by (induction es) auto

lemma labelOf_unscored: "labelOf (map unscored es) i = labelOf es i"
  by (cases "find (\<lambda>e. eid e = i) es") (simp_all add: labelOf_def find_id_unscored)

section \<open>The traced decoders follow the untraced ones\<close>

lemma replayPath_snoc: "replayPath (frames @ [fr]) = partialPath fr"
  by (simp add: replayPath_def)

lemma replayPath_append: "fs \<noteq> [] \<Longrightarrow> replayPath (frames @ fs) = partialPath (last fs)"
  by (simp add: replayPath_def)

lemma greedyLoopT_done:
  "\<not> current < len \<Longrightarrow> greedyLoopT es len current path frames = Some (path, frames)"
  by (subst greedyLoopT.simps) simp

lemma greedyLoopT_dead:
  "current < len \<Longrightarrow> filter (\<lambda>e. efrom e = current) es = [] \<Longrightarrow>
   \<exists>fr. greedyLoopT es len current path frames = Some (path, frames @ [fr]) \<and> partialPath fr = path"
  by (subst greedyLoopT.simps) simp

lemma greedyLoopT_step:
  assumes "current < len" "filter (\<lambda>e. efrom e = current) es = c # cs"
  shows "\<exists>fs. greedyLoopT es len current path frames =
           greedyLoopT es len (eto (hd (sort_key spanKey (c # cs))))
             (path @ [eid (hd (sort_key spanKey (c # cs)))]) (frames @ fs) \<and>
           fs \<noteq> [] \<and> partialPath (last fs) = path @ [eid (hd (sort_key spanKey (c # cs)))]"
proof -
  let ?b = "hd (sort_key spanKey (c # cs))"
  let ?f1 = "\<lparr>frameId = ''frame-consider-'' @ show_nat current,
                 description = ''Considering tokens at index '' @ show_nat current,
                 candidates = map eid (c # cs),
                 chosen = None,
                 partialPath = path,
                 viterbiSnapshot = None\<rparr>"
  let ?f2 = "\<lparr>frameId = ''frame-choose-'' @ eid ?b,
                       description = ''Chose '' @ elabel ?b @ '' ('' @ eid ?b @ '')'',
                       candidates = map eid (sort_key spanKey (c # cs)),
                       chosen = Some (eid ?b),
                       partialPath = path @ [eid ?b],
                       viterbiSnapshot = None\<rparr>"
  have "greedyLoopT es len current path frames =
        greedyLoopT es len (eto ?b) (path @ [eid ?b]) (frames @ [?f1, ?f2])"
    using assms by (subst greedyLoopT.simps) (simp add: Let_def)
  then show ?thesis by (intro exI[of _ "[?f1, ?f2]"]) simp
qed

lemma greedy_trace:
  assumes fw: "forwardEdges n es"
  shows "replayPath frames = path \<Longrightarrow>
         \<exists>p fr. greedyLoop es n cur path = Some p \<and>
                greedyLoopT es n cur path frames = Some (p, fr) \<and> replayPath fr = p"
proof (induction "n - cur" arbitrary: cur path frames rule: less_induct)
  case less
  show ?case
  proof (cases "cur < n")
    case False
    with less.prems show ?thesis by (simp add: greedyLoop_done greedyLoopT_done)
  next
    case True
    let ?c = "filter (\<lambda>e. efrom e = cur) es"
    show ?thesis
    proof (cases ?c)
      case Nil
      from greedyLoopT_dead[OF True Nil, of path frames] obtain fr where
        "greedyLoopT es n cur path frames = Some (path, frames @ [fr])" "partialPath fr = path"
        by blast
      with True Nil show ?thesis by (simp add: greedyLoop_dead replayPath_snoc)
    next
      case (Cons c cs)
      let ?b = "hd (sort_key spanKey (c # cs))"
      have "?b \<in> set ?c" unfolding Cons by (rule hd_sort_key_mem) simp
      then have b: "?b \<in> set es" "efrom ?b = cur" by auto
      from forwardEdgesD[OF fw b(1)] b(2) have "cur < eto ?b" "eto ?b \<le> n" by auto
      then have m: "n - eto ?b < n - cur" by arith
      from greedyLoopT_step[OF True Cons, of path frames] obtain fs where
        fs: "greedyLoopT es n cur path frames =
               greedyLoopT es n (eto ?b) (path @ [eid ?b]) (frames @ fs)"
            "fs \<noteq> []" "partialPath (last fs) = path @ [eid ?b]" by blast
      have "replayPath (frames @ fs) = path @ [eid ?b]"
        using fs(2,3) by (simp add: replayPath_append)
      from less.hyps[OF m this] show ?thesis
        unfolding fs(1) greedyLoop_step[OF True Cons] .
    qed
  qed
qed

lemma foldOption_sim:
  assumes "\<And>s x. map_option fst (g s x) = f (fst s) x"
  shows "map_option fst (foldOption g xs s) = foldOption f xs (fst s)"
proof (induction xs arbitrary: s)
  case Nil
  then show ?case by simp
next
  case (Cons x xs)
  show ?case
  proof (cases "g s x")
    case None
    with assms[of s x] show ?thesis by simp
  next
    case (Some s')
    with assms[of s x] have "f (fst s) x = Some (fst s')" by simp
    with Some Cons.IH[of s'] show ?thesis by simp
  qed
qed

lemma foldOption_preserves:
  assumes "\<And>s x s'. P s \<Longrightarrow> g s x = Some s' \<Longrightarrow> P s'"
  shows "P s \<Longrightarrow> foldOption g xs s = Some s' \<Longrightarrow> P s'"
proof (induction xs arbitrary: s)
  case Nil
  then show ?case by simp
next
  case (Cons x xs)
  then show ?case using assms by (cases "g s x") auto
qed

lemma relaxEdgeT_sim: "map_option fst (relaxEdgeT i st e) = relaxEdge i (fst st) e"
  by (simp add: relaxEdgeT_def relaxEdge_def Let_def)

lemma relaxEdgeT_noPath: "noPath st \<Longrightarrow> relaxEdgeT i st e = Some st' \<Longrightarrow> noPath st'"
  by (auto simp: relaxEdgeT_def Let_def noPath_def replayPath_snoc split: if_splits)

lemma relaxNodeT_sim: "map_option fst (relaxNodeT es st i) = relaxNode es (fst st) i"
  unfolding relaxNodeT_def relaxNode_def Let_def
  by (simp add: foldOption_sim[of "relaxEdgeT i" "relaxEdge i", OF relaxEdgeT_sim])

lemma relaxNodeT_noPath:
  assumes "noPath st" "relaxNodeT es st i = Some st'"
  shows "noPath st'"
proof (cases "cost (fst st ! i) = PosInf")
  case True
  with assms show ?thesis by (simp add: relaxNodeT_def Let_def noPath_def)
next
  case False
  let ?fr = "\<lparr>frameId = ''frame-consider-'' @ show_nat i,
                    description = ''Considering outgoing edges from node '' @ show_nat i,
                    candidates = map eid (filter (\<lambda>e. efrom e = i) es),
                    chosen = None,
                    partialPath = [],
                    viterbiSnapshot = Some (snapshot (fst st))\<rparr>"
  from False assms(2) have f: "foldOption (relaxEdgeT i) (filter (\<lambda>e. efrom e = i) es)
       (fst st, snd st @ [?fr]) = Some st'"
    by (simp add: relaxNodeT_def Let_def)
  have "noPath (fst st, snd st @ [?fr])" by (simp add: noPath_def replayPath_snoc)
  from foldOption_preserves[of noPath "relaxEdgeT i", OF relaxEdgeT_noPath this f]
  show ?thesis .
qed

lemma relaxAllT:
  assumes "foldOption (relaxNode es) [0 ..< n] (initCost n) = Some mc"
  shows "\<exists>fr. foldOption (relaxNodeT es) [0 ..< n] (initCost n, []) = Some (mc, fr) \<and>
              replayPath fr = []"
proof -
  from foldOption_sim[of "relaxNodeT es" "relaxNode es" "[0 ..< n]" "(initCost n, [])", OF relaxNodeT_sim]
    assms
  obtain st where st: "foldOption (relaxNodeT es) [0 ..< n] (initCost n, []) = Some st" "fst st = mc"
    by auto
  have "noPath (initCost n, [])" by (simp add: noPath_def replayPath_def)
  from foldOption_preserves[of noPath "relaxNodeT es", OF relaxNodeT_noPath this st(1)]
  have "replayPath (snd st) = []" by (simp add: noPath_def)
  with st show ?thesis by (cases st) auto
qed

lemma backtrackT_zero: "backtrackT mc 0 acc frames = Some (acc, frames)"
  by (subst backtrackT.simps) simp

lemma backtrackT_step:
  assumes "0 < v" "v < length mc" "edgeId (mc ! v) = Some i" "i \<noteq> []"
  shows "\<exists>fr. backtrackT mc (int v) acc frames =
            backtrackT mc (prevNode (mc ! v)) (i # acc) (frames @ [fr]) \<and>
            partialPath fr = i # acc"
proof -
  let ?fr = "\<lparr>frameId = ''frame-backtrack-'' @ show_int (prevNode (mc ! v)),
             description = ''Backtracking chose '' @ i,
             candidates = [],
             chosen = Some i,
             partialPath = i # acc,
             viterbiSnapshot = Some (snapshot mc)\<rparr>"
  have "backtrackT mc (int v) acc frames =
        backtrackT mc (prevNode (mc ! v)) (i # acc) (frames @ [?fr])"
    using assms by (subst backtrackT.simps) simp
  then show ?thesis by (intro exI[of _ ?fr]) simp
qed

lemma backtrackT_stop:
  assumes "0 < v" "v < length mc" "edgeId (mc ! v) = None"
  shows "backtrackT mc (int v) acc frames = Some (acc, frames)"
  using assms by (subst backtrackT.simps) simp

lemma backtrack_trace:
  assumes fw: "forwardEdges n es" and inv: "linkedTable es n mc"
  shows "v \<le> n \<Longrightarrow> replayPath frames = acc \<Longrightarrow>
         \<exists>p fr. backtrack mc (int v) acc = Some p \<and>
                backtrackT mc (int v) acc frames = Some (p, fr) \<and> replayPath fr = p"
proof (induction v arbitrary: acc frames rule: less_induct)
  case (less v)
  have vl: "v < length mc" using inv less.prems by (simp add: linkedTable_def)
  show ?case
  proof (cases "v = 0")
    case True
    with less.prems show ?thesis by (simp add: backtrack_zero backtrackT_zero)
  next
    case False
    then have v0: "0 < v" by simp
    from inv less.prems have lk: "linked es mc v" by (simp add: linkedTable_def)
    show ?thesis
    proof (cases "edgeId (mc ! v)")
      case None
      from backtrack_stop[OF v0 vl None] backtrackT_stop[OF v0 vl None] less.prems(2)
      show ?thesis by simp
    next
      case (Some i)
      with lk obtain e where e: "e \<in> set es" "eto e = v"
        "edgeId (mc ! v) = Some (eid e)" "prevNode (mc ! v) = int (efrom e)"
        by (auto simp: linked_def)
      from forwardEdgesD[OF fw e(1)] e(2) have f: "efrom e < v" "eid e \<noteq> []" by auto
      have le: "efrom e \<le> n" using f less.prems by simp
      from backtrackT_step[OF v0 vl e(3) f(2), of acc frames] obtain fr where
        fr: "backtrackT mc (int v) acc frames =
               backtrackT mc (prevNode (mc ! v)) (eid e # acc) (frames @ [fr])"
            "partialPath fr = eid e # acc" by blast
      have "replayPath (frames @ [fr]) = eid e # acc" using fr(2) by (simp add: replayPath_snoc)
      from less.IH[OF f(1) le this] show ?thesis
        unfolding fr(1) backtrack_step[OF v0 vl e(3) f(2)] e(4) .
    qed
  qed
qed

lemma viterbi_trace:
  assumes fw: "forwardEdges n es"
  shows "\<exists>p fr. viterbiDecode es n = Some p \<and>
           (case foldOption (relaxNodeT es) [0 ..< n] (initCost n, []) of
              None \<Rightarrow> None
            | Some (minCost, frames) \<Rightarrow> backtrackT minCost (int n) [] frames) = Some (p, fr) \<and>
           replayPath fr = p"
proof -
  from relaxAll_linked[OF fw] obtain mc where
    mc: "foldOption (relaxNode es) [0 ..< n] (initCost n) = Some mc" "linkedTable es n mc"
    by blast
  from relaxAllT[OF mc(1)] obtain fr0 where
    fr0: "foldOption (relaxNodeT es) [0 ..< n] (initCost n, []) = Some (mc, fr0)"
         "replayPath fr0 = []" by blast
  from backtrack_trace[OF fw mc(2) le_refl fr0(2)] obtain p fr where
    "backtrack mc (int n) [] = Some p" "backtrackT mc (int n) [] fr0 = Some (p, fr)"
    "replayPath fr = p" by blast
  with mc(1) fr0(1) show ?thesis by (simp add: viterbiDecode_def)
qed

lemma decode_trace:
  "\<exists>p fr. (if algo = UNIGRAM then viterbiDecode (latticeEdges tx algo cv) (length tx)
            else greedyDecode (latticeEdges tx algo cv) (length tx)) = Some p \<and>
          (if algo = UNIGRAM then
             (case foldOption (relaxNodeT (latticeEdges tx algo cv)) [0 ..< length tx]
                     (initCost (length tx), []) of
                None \<Rightarrow> None
              | Some (minCost, frames) \<Rightarrow> backtrackT minCost (int (length tx)) [] frames)
           else greedyLoopT (latticeEdges tx algo cv) (length tx) 0 [] []) = Some (p, fr) \<and>
          replayPath fr = p"
proof (cases "algo = UNIGRAM")
  case True
  from viterbi_trace[OF lattice_forward, of tx algo cv] True show ?thesis by simp
next
  case False
  have "replayPath [] = []" by (simp add: replayPath_def)
  from greedy_trace[OF lattice_forward this, of tx algo cv 0] False
  show ?thesis by (simp add: greedyDecode_def)
qed

lemma tokenizeWithTrace_alt:
  "tokenizeWithTrace f inp algo nz cv =
     map_option
       (\<lambda>(path, frames).
          (\<lparr>graph = \<lparr>nodes = [0 ..< length (if nz then f inp else inp) + 1],
                      edges = latticeEdges (if nz then f inp else inp) algo cv,
                      gtext = (if nz then f inp else inp)\<rparr>,
            selectedPath = path,
            tokens = map (labelOf (latticeEdges (if nz then f inp else inp) algo cv)) path\<rparr>,
           frames))
       (if algo = UNIGRAM then
          (case foldOption (relaxNodeT (latticeEdges (if nz then f inp else inp) algo cv))
                  [0 ..< length (if nz then f inp else inp)]
                  (initCost (length (if nz then f inp else inp)), []) of
             None \<Rightarrow> None
           | Some (minCost, frames) \<Rightarrow>
               backtrackT minCost (int (length (if nz then f inp else inp))) [] frames)
        else greedyLoopT (latticeEdges (if nz then f inp else inp) algo cv)
               (length (if nz then f inp else inp)) 0 [] [])"
  unfolding tokenizeWithTrace_def Let_def buildLattice_pair
  by (simp split: option.splits prod.splits)

section \<open>The built-in and the empty vocabulary\<close>

lemma MOCK_VOCAB_sorted:
  "MOCK_VOCAB =
    [vi ''tokenizer'' 7, vi ''running'' 6, vi ''national'' 6, vi ''tokenize'' 6,
     vi ''the'' 5, vi ''tion'' 5, vi ''zation'' 5, vi ''neural'' 5, vi ''token'' 5,
     vi ''tokeniz'' 5, vi ''##tion'' 5,
     vi ''inter'' 4, vi ''ing'' 4, vi ''count'' 4, vi ''intui'' 4, vi ''tive'' 4,
     vi ''works'' 4, vi ''tokeni'' 4, vi ''izer'' 4, vi ''##ing'' 4,
     vi ''un'' 3, vi ''run'' 3, vi ''ali'' 3, vi ''happ'' 3, vi ''ness'' 3, vi ''low'' 3,
     vi ''new'' 3, vi ''net'' 3, vi ''work'' 3, vi ''ize'' 3, vi ''##ness'' 3,
     vi ''th'' 2, vi ''an'' 2, vi ''in'' 2, vi ''tre'' 2, vi ''is'' 2, vi ''er'' 2,
     vi ''est'' 2, vi ''##er'' 2,
     vi ''t'' 1, vi ''a'' 1, vi ''at'' 1, vi ''re'' 1, vi ''on'' 1, vi ''y'' 1, vi ''##y'' 1,
     vi ''##s'' 1, vi ''r'' 0.5, vi ''n'' 0.5, vi ''i'' 0.5]"
  by (simp add: MOCK_VOCAB_def FALLBACK_VOCAB_def vi_def)

lemma mock_find:
  "find (\<lambda>v. token v = ''a'') MOCK_VOCAB = Some (vi ''a'' 1)"
  "find (\<lambda>v. token v = ''an'') MOCK_VOCAB = Some (vi ''an'' 2)"
  "find (\<lambda>v. token v = ''n'') MOCK_VOCAB = Some (vi ''n'' 0.5)"
  by (simp_all add: MOCK_VOCAB_sorted vi_def)

lemma findMatch_empty: "findMatch [] algo i s = None"
  by (simp add: findMatch_def)

lemma concat_map_single:
  "(\<And>i. g i = [h i]) \<Longrightarrow> concat (map g xs) = map h xs"
  by (induction xs) simp_all

lemma lattice_empty_vocab:
  "latticeEdges tx algo (Some []) = map (fallbackEdge tx) [0 ..< length tx]"
proof -
  have "\<And>i. edgesAt tx algo [] (softmaxTable []) (indexTable []) i = [fallbackEdge tx i]"
    by (rule edgesAt_fallback) (simp add: findMatch_empty)
  then show ?thesis
    unfolding latticeEdges_alt by (simp add: concat_map_single)
qed

lemma unit_chain_walk:
  "walk p a n \<Longrightarrow> set p \<subseteq> set (map (fallbackEdge tx) [0 ..< n]) \<Longrightarrow> a \<le> n \<Longrightarrow>
   p = map (fallbackEdge tx) [a ..< n]"
proof (induction p arbitrary: a)
  case Nil
  then show ?case by simp
next
  case (Cons e p)
  from Cons.prems(2) obtain i where i: "i < n" "e = fallbackEdge tx i" by auto
  with Cons.prems(1) have a: "i = a" "walk p (Suc a) n" by (auto simp: fallbackEdge_def)
  from Cons.IH[OF a(2)] Cons.prems(2) i(1) a(1) have "p = map (fallbackEdge tx) [Suc a ..< n]"
    by simp
  with i a show ?case by (simp add: upt_conv_Cons)
qed

lemma single_chars: "map (\<lambda>i. [tx ! i]) [0 ..< length tx] = map (\<lambda>c. [c]) tx"
proof -
  have "map (\<lambda>i. [tx ! i]) [0 ..< length tx] = map (\<lambda>c. [c]) (map (\<lambda>i. tx ! i) [0 ..< length tx])"
    by simp
  then show ?thesis by (simp only: map_nth)
qed

lemma tokenize_empty_vocab:
  "tokenize f inp algo nz (Some []) =
     Some \<lparr>graph = \<lparr>nodes = [0 ..< length (if nz then f inp else inp) + 1],
                    edges = map (fallbackEdge (if nz then f inp else inp))
                              [0 ..< length (if nz then f inp else inp)],
                    gtext = (if nz then f inp else inp)\<rparr>,
           selectedPath = map (\<lambda>i. eid (fallbackEdge (if nz then f inp else inp) i))
                            [0 ..< length (if nz then f inp else inp)],
           tokens = map (\<lambda>c. [c]) (if nz then f inp else inp)\<rparr>"
proof -
  have gen: "\<And>tx. (if algo = UNIGRAM then viterbiDecode (latticeEdges tx algo (Some [])) (length tx)
                    else greedyDecode (latticeEdges tx algo (Some [])) (length tx)) =
                   Some (map (\<lambda>i. eid (fallbackEdge tx i)) [0 ..< length tx]) \<and>
             map (labelOf (latticeEdges tx algo (Some [])))
                 (map (\<lambda>i. eid (fallbackEdge tx i)) [0 ..< length tx]) = map (\<lambda>c. [c]) tx"
  proof -
    fix tx
    let ?E = "latticeEdges tx algo (Some [])"
    have "numeric ?E"
      by (simp add: lattice_empty_vocab numeric_def list_all_iff fallbackEdge_def)
    from decode_lattice[of algo tx "Some []", OF this] obtain p :: "TokenEdge list" where
      p: "(if algo = UNIGRAM then viterbiDecode ?E (length tx) else greedyDecode ?E (length tx))
            = Some (map eid p)" "set p \<subseteq> set ?E" "walk p 0 (length tx)" by blast
    from unit_chain_walk[OF p(3), of tx] p(2) have pe: "p = map (fallbackEdge tx) [0 ..< length tx]"
      by (simp add: lattice_empty_vocab)
    have "map (labelOf ?E) (map eid p) = map elabel p" by (rule labels_of_lattice_path[OF p(2)])
    also have "\<dots> = map (\<lambda>i. [tx ! i]) [0 ..< length tx]"
      unfolding pe by (simp add: fallbackEdge_def)
    also have "\<dots> = map (\<lambda>c. [c]) tx" by (rule single_chars)
    finally have "map (labelOf ?E) (map eid p) = map (\<lambda>c. [c]) tx" .
    with p(1) show "(if algo = UNIGRAM then viterbiDecode ?E (length tx) else greedyDecode ?E (length tx)) =
                   Some (map (\<lambda>i. eid (fallbackEdge tx i)) [0 ..< length tx]) \<and>
             map (labelOf ?E) (map (\<lambda>i. eid (fallbackEdge tx i)) [0 ..< length tx]) = map (\<lambda>c. [c]) tx"
      unfolding pe by (simp add: comp_def)
  qed
  show "tokenize f inp algo nz (Some []) =
     Some \<lparr>graph = \<lparr>nodes = [0 ..< length (if nz then f inp else inp) + 1],
                    edges = map (fallbackEdge (if nz then f inp else inp))
                              [0 ..< length (if nz then f inp else inp)],
                    gtext = (if nz then f inp else inp)\<rparr>,
           selectedPath = map (\<lambda>i. eid (fallbackEdge (if nz then f inp else inp) i))
                            [0 ..< length (if nz then f inp else inp)],
           tokens = map (\<lambda>c. [c]) (if nz then f inp else inp)\<rparr>"
    unfolding tokenize_alt using gen[of "if nz then f inp else inp"]
    by (simp add: lattice_empty_vocab)
qed

section \<open>Labels read off identifiers\<close>

lemma digit_val_digit_char: "d < 10 \<Longrightarrow> digit_val (digit_char d) = d"
proof -
  assume "d < 10"
  then have "d \<in> {0,1,2,3,4,5,6,7,8,9}" by auto
  then show ?thesis unfolding digit_char_def digit_val_def by auto
qed

lemma read_nat_snoc: "read_nat (s @ [c]) = 10 * read_nat s + digit_val c"
  by (simp add: read_nat_def)

lemma read_show_nat: "read_nat (show_nat n) = n"
proof (induction n rule: show_nat.induct)
  case (1 n)
  show ?case
  proof (cases "n < 10")
    case True
    then show ?thesis by (simp add: show_nat_small read_nat_def digit_val_digit_char)
  next
    case False
    then have "show_nat n = show_nat (n div 10) @ [digit_char (n mod 10)]"
      by (subst show_nat.simps) simp
    with 1[OF False] show ?thesis by (simp add: read_nat_snoc digit_val_digit_char)
  qed
qed

lemma takeWhile_until: "c \<notin> set xs \<Longrightarrow> takeWhile (\<lambda>x. x \<noteq> c) (xs @ c # r) = xs"
  by (induction xs) auto

lemma dropWhile_until: "c \<notin> set xs \<Longrightarrow> dropWhile (\<lambda>x. x \<noteq> c) (xs @ c # r) = c # r"
  by (induction xs) auto

lemma takeWhile_show_nat: "takeWhile (\<lambda>c. c \<noteq> CHR ''-'') (show_nat n @ CHR ''-'' # r) = show_nat n"
  by (rule takeWhile_until[OF show_nat_no_dash])

lemma afterDash_show_nat: "afterDash (show_nat n @ CHR ''-'' # r) = r"
  by (simp add: afterDash_def dropWhile_until[OF show_nat_no_dash])

lemma labelOfId_parse:
  "labelOfId (''edge-'' @ show_nat i @ ''-'' @ show_nat j @ ''-'' @ r) =
     (if j = i + 1 \<and> length r = 10 \<and> take 9 r = ''fallback-'' then drop 9 r else r)"
proof -
  have a: "drop 5 (''edge-'' @ show_nat i @ ''-'' @ show_nat j @ ''-'' @ r) =
           show_nat i @ CHR ''-'' # (show_nat j @ CHR ''-'' # r)" by simp
  show ?thesis
    unfolding labelOfId_def Let_def a takeWhile_show_nat afterDash_show_nat read_show_nat
    by simp
qed

lemma find_mem: "find P xs = Some x \<Longrightarrow> x \<in> set xs \<and> P x"
  by (induction xs) (auto split: if_splits)

lemma findMatch_token:
  "findMatch vocab algo i s = Some m \<Longrightarrow> token m = s \<or> token m = ''##'' @ s"
  by (auto simp: findMatch_def split: option.splits if_splits dest: find_mem)

lemma labelOfId_edgesAt:
  assumes e: "e \<in> set (edgesAt tx algo vocab pr rk i)" and i: "i < length tx"
  shows "labelOfId (eid e) = elabel e"
proof -
  from edgesAt_cases[of tx algo vocab pr rk i] show ?thesis
  proof
    assume "edgesAt tx algo vocab pr rk i = [fallbackEdge tx i]"
    with e have ef: "e = fallbackEdge tx i" by simp
    have "eid e = ''edge-'' @ show_nat i @ ''-'' @ show_nat (i + 1) @ ''-'' @ (''fallback-'' @ [tx ! i])"
      unfolding ef by (simp add: fallbackEdge_def)
    then have "labelOfId (eid e) = [tx ! i]" by (simp only: labelOfId_parse) simp
    then show ?thesis unfolding ef by (simp add: fallbackEdge_def)
  next
    assume "edgesAt tx algo vocab pr rk i =
     List.map_filter (matchedEdge tx algo vocab pr rk i)
       [i + 1 ..< min (length tx) (i + MAX_TOKEN_LENGTH) + 1]"
    with e obtain j where j: "j \<in> set [i + 1 ..< min (length tx) (i + MAX_TOKEN_LENGTH) + 1]"
      and m: "matchedEdge tx algo vocab pr rk i j = Some e"
      by (auto simp: mem_map_filter)
    let ?s = "take (j - i) (drop i tx)"
    from j have len: "length ?s = j - i" by auto
    from m obtain v where v: "findMatch vocab algo i ?s = Some v"
      and ev: "eid e = ''edge-'' @ show_nat i @ ''-'' @ show_nat j @ ''-'' @ token v"
              "elabel e = token v"
      by (auto simp: matchedEdge_def Let_def split: option.splits)
    from findMatch_token[OF v] len have "j = i + 1 \<Longrightarrow> length (token v) \<noteq> 10" by auto
    then show ?thesis unfolding ev labelOfId_parse by auto
  qed
qed

lemma labelOfId_lattice:
  assumes "e \<in> set (latticeEdges tx algo cv)"
  shows "labelOfId (eid e) = elabel e"
proof -
  from assms obtain i where "i < length tx"
    "e \<in> set (edgesAt tx algo (case cv of Some c \<Rightarrow> c | None \<Rightarrow> MOCK_VOCAB)
                    (case cv of Some c \<Rightarrow> softmaxTable c | None \<Rightarrow> UNIGRAM_PROBS)
                    (case cv of Some c \<Rightarrow> indexTable c | None \<Rightarrow> BPE_RANKS) i)"
    unfolding latticeEdges_alt by auto
  from labelOfId_edgesAt[OF this(2,1)] show ?thesis .
qed

lemma labelOfId_path:
  "set p \<subseteq> set (latticeEdges tx algo cv) \<Longrightarrow> map labelOfId (map eid p) = map elabel p"
  by (induction p) (auto simp: labelOfId_lattice)

lemma decode_trace_walk:
  "\<exists>p fr. (if algo = UNIGRAM then viterbiDecode (latticeEdges tx algo cv) (length tx)
            else greedyDecode (latticeEdges tx algo cv) (length tx)) = Some (map eid p) \<and>
          set p \<subseteq> set (latticeEdges tx algo cv) \<and>
          (if algo = UNIGRAM then
             (case foldOption (relaxNodeT (latticeEdges tx algo cv)) [0 ..< length tx]
                     (initCost (length tx), []) of
                None \<Rightarrow> None
              | Some (minCost, frames) \<Rightarrow> backtrackT minCost (int (length tx)) [] frames)
           else greedyLoopT (latticeEdges tx algo cv) (length tx) 0 [] []) = Some (map eid p, fr) \<and>
          replayPath fr = map eid p"
proof -
  from decode_path[of algo tx cv] obtain p :: "TokenEdge list" where
    p: "(if algo = UNIGRAM then viterbiDecode (latticeEdges tx algo cv) (length tx)
            else greedyDecode (latticeEdges tx algo cv) (length tx)) = Some (map eid p)"
       "set p \<subseteq> set (latticeEdges tx algo cv)" by blast
  from decode_trace[of algo tx cv] p(1) obtain fr where
    "(if algo = UNIGRAM then
             (case foldOption (relaxNodeT (latticeEdges tx algo cv)) [0 ..< length tx]
                     (initCost (length tx), []) of
                None \<Rightarrow> None
              | Some (minCost, frames) \<Rightarrow> backtrackT minCost (int (length tx)) [] frames)
           else greedyLoopT (latticeEdges tx algo cv) (length tx) 0 [] []) = Some (map eid p, fr)"
    "replayPath fr = map eid p" by auto
  with p show ?thesis by blast
qed

section \<open>Scores that are not numbers\<close>

lemmas table_eval =
  softmaxTable_def indexTable_def expSum_def objSet_def objGet_def objectPrototypeKeys_def
  jsAdd_def

text \<open>
  The token \<^verbatim>\<open>__proto__\<close> as the only entry of a supplied vocabulary: neither table gets
  an entry for it, and the lookup yields \<^verbatim>\<open>Object.prototype\<close>.
\<close>

lemma proto_lattice:
  "latticeEdges ''__proto__'' UNIGRAM (Some [vi ''__proto__'' 0]) =
     [\<lparr>eid = ''edge-0-9-__proto__'', efrom = 0, eto = 9, elabel = ''__proto__'', escore = NaN\<rparr>,
      \<lparr>eid = ''edge-1-2-fallback-_'', efrom = 1, eto = 2, elabel = ''_'', escore = Num 10\<rparr>,
      \<lparr>eid = ''edge-2-3-fallback-p'', efrom = 2, eto = 3, elabel = ''p'', escore = Num 10\<rparr>,
      \<lparr>eid = ''edge-3-4-fallback-r'', efrom = 3, eto = 4, elabel = ''r'', escore = Num 10\<rparr>,
      \<lparr>eid = ''edge-4-5-fallback-o'', efrom = 4, eto = 5, elabel = ''o'', escore = Num 10\<rparr>,
      \<lparr>eid = ''edge-5-6-fallback-t'', efrom = 5, eto = 6, elabel = ''t'', escore = Num 10\<rparr>,
      \<lparr>eid = ''edge-6-7-fallback-o'', efrom = 6, eto = 7, elabel = ''o'', escore = Num 10\<rparr>,
      \<lparr>eid = ''edge-7-8-fallback-_'', efrom = 7, eto = 8, elabel = ''_'', escore = Num 10\<rparr>,
      \<lparr>eid = ''edge-8-9-fallback-_'', efrom = 8, eto = 9, elabel = ''_'', escore = Num 10\<rparr>]"
  by (simp add: latticeEdges_def lattice_eval table_eval)

lemma proto_lattice_bpe:
  "latticeEdges ''__proto__'' BPE (Some [vi ''__proto__'' 0]) =
     [\<lparr>eid = ''edge-0-9-__proto__'', efrom = 0, eto = 9, elabel = ''__proto__'', escore = Obj\<rparr>,
      \<lparr>eid = ''edge-1-2-fallback-_'', efrom = 1, eto = 2, elabel = ''_'', escore = Num 10\<rparr>,
      \<lparr>eid = ''edge-2-3-fallback-p'', efrom = 2, eto = 3, elabel = ''p'', escore = Num 10\<rparr>,
      \<lparr>eid = ''edge-3-4-fallback-r'', efrom = 3, eto = 4, elabel = ''r'', escore = Num 10\<rparr>,
      \<lparr>eid = ''edge-4-5-fallback-o'', efrom = 4, eto = 5, elabel = ''o'', escore = Num 10\<rparr>,
      \<lparr>eid = ''edge-5-6-fallback-t'', efrom = 5, eto = 6, elabel = ''t'', escore = Num 10\<rparr>,
      \<lparr>eid = ''edge-6-7-fallback-o'', efrom = 6, eto = 7, elabel = ''o'', escore = Num 10\<rparr>,
      \<lparr>eid = ''edge-7-8-fallback-_'', efrom = 7, eto = 8, elabel = ''_'', escore = Num 10\<rparr>,
      \<lparr>eid = ''edge-8-9-fallback-_'', efrom = 8, eto = 9, elabel = ''_'', escore = Num 10\<rparr>]"
  by (simp add: latticeEdges_def lattice_eval table_eval)

lemma initCost_nth:
  "v \<le> n \<Longrightarrow> initCost n ! v =
     (if v = 0 then \<lparr>cost = Num 0, edgeId = None, prevNode = - 1\<rparr>
      else \<lparr>cost = PosInf, edgeId = None, prevNode = - 1\<rparr>)"
  by (simp add: initCost_def)

lemma initCost_length: "length (initCost n) = n + 1"
  by (simp add: initCost_def)

text \<open>
  The relaxation leaves the table as it starts: the only edge out of node 0 has the new
  cost \<^verbatim>\<open>NaN\<close>, which is less than nothing, and the other nodes stay at \<^verbatim>\<open>Infinity\<close>.
\<close>

lemma proto_viterbi:
  "viterbiDecode (latticeEdges ''__proto__'' UNIGRAM (Some [vi ''__proto__'' 0])) 9 = Some []"
proof -
  let ?E = "latticeEdges ''__proto__'' UNIGRAM (Some [vi ''__proto__'' 0])"
  have r: "\<And>i. i < 9 \<Longrightarrow> relaxNode ?E (initCost 9) i = Some (initCost 9)"
  proof -
    fix i :: nat assume i: "i < 9"
    show "relaxNode ?E (initCost 9) i = Some (initCost 9)"
    proof (cases "i = 0")
      case True
      then show ?thesis
        by (simp add: relaxNode_def relaxEdge_def proto_lattice initCost_nth initCost_length
              costPlus_def Let_def)
    next
      case False
      with i show ?thesis by (simp add: relaxNode_def initCost_nth)
    qed
  qed
  have "\<And>n. n \<le> 9 \<Longrightarrow> foldOption (relaxNode ?E) [0 ..< n] (initCost 9) = Some (initCost 9)"
  proof -
    fix n :: nat
    show "n \<le> 9 \<Longrightarrow> foldOption (relaxNode ?E) [0 ..< n] (initCost 9) = Some (initCost 9)"
      by (induction n) (simp_all add: foldOption_append r)
  qed
  then have "foldOption (relaxNode ?E) [0 ..< 9] (initCost 9) = Some (initCost 9)" by simp
  moreover have "backtrack (initCost 9) (int 9) [] = Some []"
    by (rule backtrack_stop) (simp_all add: initCost_nth initCost_length)
  ultimately show ?thesis by (simp add: viterbiDecode_def)
qed

lemma proto_greedy:
  "greedyDecode (latticeEdges ''__proto__'' BPE (Some [vi ''__proto__'' 0])) 9 =
     Some [''edge-0-9-__proto__'']"
  by (simp add: proto_lattice_bpe greedyDecode_def greedyLoop_done greedyLoop_step)

text \<open>\<^verbatim>\<open>Math.exp(10000)\<close> is \<^verbatim>\<open>Infinity\<close>: already \<open>2\<^sup>1\<^sup>0\<^sup>0\<^sup>0\<^sup>0\<close> is beyond the doubles.\<close>

lemma exp_overflow: "2 ^ 1024 - 2 ^ 970 \<le> exp (10000 :: real)"
proof -
  have "(2::real) \<le> exp 1" using exp_ge_add_one_self[of "1::real"] by simp
  then have "(2::real) ^ 10000 \<le> exp 1 ^ 10000" by (rule power_mono) simp
  also have "exp (1::real) ^ 10000 = exp (of_nat 10000 * 1)" by (rule exp_of_nat_mult[symmetric])
  finally have a: "(2::real) ^ 10000 \<le> exp 10000" by simp
  have "(2::real) ^ 1024 \<le> 2 ^ 10000" by (rule power_increasing) simp_all
  moreover have "(2::real) ^ 1024 - 2 ^ 970 \<le> 2 ^ 1024" by simp
  ultimately show ?thesis using a by linarith
qed

lemma jsExp_overflow: "jsExp 10000 = PosInf"
  unfolding jsExp_def toDouble_def using exp_overflow by simp

section \<open>Continuation-marked entries in WordPiece mode\<close>

text \<open>
  C1. The claim: in WordPiece mode and at a position \<open>i > 0\<close>, an entry \<^verbatim>\<open>##\<close> + substring
  is preferred over a bare match whenever it exists. The code looks the bare substring up
  first and consults the \<^verbatim>\<open>##\<close> entry only when that lookup fails: with the vocabulary
  \<^verbatim>\<open>a\<close>, \<^verbatim>\<open>ing\<close>, \<^verbatim>\<open>##ing\<close> and the text \<^verbatim>\<open>aing\<close>, the edge from 1 to 4 carries the bare
  \<^verbatim>\<open>ing\<close>, although \<^verbatim>\<open>##ing\<close> is in the vocabulary.
\<close>

theorem C1_bare_match_shadows_continuation:
  "findMatch [vi ''a'' 1, vi ''ing'' 4, vi ''##ing'' 4] WORDPIECE 1 ''ing'' = Some (vi ''ing'' 4) \<and>
   map (\<lambda>e. (efrom e, eto e, elabel e))
     (fst (buildLattice ''aing'' WORDPIECE (Some [vi ''a'' 1, vi ''ing'' 4, vi ''##ing'' 4])))
   = [(0, 1, ''a''), (1, 4, ''ing''), (2, 3, ''n''), (3, 4, ''g'')]"
  by (simp add: lattice_eval)

section \<open>Optimality of the Viterbi path\<close>

text \<open>
  C2 says that for the Unigram algorithm the selected path is a cheapest path from node 0
  to node \<open>len(text)\<close> of the lattice. At the text \<^verbatim>\<open>__proto__\<close> with the supplied
  vocabulary \<^verbatim>\<open>[{token: "__proto__", score: 0}]\<close> the code does otherwise. The probability
  table is a plain object, so the assignment to the key \<^verbatim>\<open>__proto__\<close> stores nothing and
  the lookup yields \<^verbatim>\<open>Object.prototype\<close>; the matched edge from 0 to 9 gets the score
  \<^verbatim>\<open>-Math.log(Object.prototype)\<close>, which is \<^verbatim>\<open>NaN\<close>. That edge alone is a path from node 0
  to node 9, and it is the only edge out of node 0. The relaxation never takes it, since
  \<^verbatim>\<open>NaN < Infinity\<close> is false, so the selected path is empty: it is no path from node 0 to
  node 9, and no summed score of it is compared with anything.
\<close>

theorem C2_no_path_is_selected_for_proto_token:
  "map_option (\<lambda>r. edges (graph r))
     (tokenize id ''__proto__'' UNIGRAM False (Some [vi ''__proto__'' 0])) =
     Some
     [\<lparr>eid = ''edge-0-9-__proto__'', efrom = 0, eto = 9, elabel = ''__proto__'', escore = NaN\<rparr>,
      \<lparr>eid = ''edge-1-2-fallback-_'', efrom = 1, eto = 2, elabel = ''_'', escore = Num 10\<rparr>,
      \<lparr>eid = ''edge-2-3-fallback-p'', efrom = 2, eto = 3, elabel = ''p'', escore = Num 10\<rparr>,
      \<lparr>eid = ''edge-3-4-fallback-r'', efrom = 3, eto = 4, elabel = ''r'', escore = Num 10\<rparr>,
      \<lparr>eid = ''edge-4-5-fallback-o'', efrom = 4, eto = 5, elabel = ''o'', escore = Num 10\<rparr>,
      \<lparr>eid = ''edge-5-6-fallback-t'', efrom = 5, eto = 6, elabel = ''t'', escore = Num 10\<rparr>,
      \<lparr>eid = ''edge-6-7-fallback-o'', efrom = 6, eto = 7, elabel = ''o'', escore = Num 10\<rparr>,
      \<lparr>eid = ''edge-7-8-fallback-_'', efrom = 7, eto = 8, elabel = ''_'', escore = Num 10\<rparr>,
      \<lparr>eid = ''edge-8-9-fallback-_'', efrom = 8, eto = 9, elabel = ''_'', escore = Num 10\<rparr>] \<and>
   walk [\<lparr>eid = ''edge-0-9-__proto__'', efrom = 0, eto = 9, elabel = ''__proto__'', escore = NaN\<rparr>]
     0 (length ''__proto__'') \<and>
   pathScore [\<lparr>eid = ''edge-0-9-__proto__'', efrom = 0, eto = 9, elabel = ''__proto__'', escore = NaN\<rparr>]
     = NaN \<and>
   viterbiDecode (latticeEdges ''__proto__'' UNIGRAM (Some [vi ''__proto__'' 0]))
     (length ''__proto__'') = Some [] \<and>
   \<not> walk [] 0 (length ''__proto__'')"
  using proto_viterbi
  by (simp add: tokenize_alt proto_lattice eval_nat_numeral pathScore_def costPlus_def)

section \<open>The selected path covers the text\<close>

text \<open>
  C3 says that for every text and vocabulary the selected path is a walk from node 0 to
  node \<open>len(text)\<close> that covers the text. At the text \<^verbatim>\<open>__proto__\<close> (nine characters) with
  the supplied vocabulary \<^verbatim>\<open>[{token: "__proto__", score: 0}]\<close> the Unigram algorithm does
  otherwise: \<^verbatim>\<open>tokenize\<close> returns the empty selected path and no tokens, so nothing of the
  text is covered. The greedy decoder, on the lattice of the same text and vocabulary,
  selects the edge from 0 to 9.
\<close>

theorem C3_selected_path_is_empty_for_proto_token:
  "length ''__proto__'' = 9 \<and>
   map_option selectedPath
     (tokenize id ''__proto__'' UNIGRAM False (Some [vi ''__proto__'' 0])) = Some [] \<and>
   map_option tokens
     (tokenize id ''__proto__'' UNIGRAM False (Some [vi ''__proto__'' 0])) = Some [] \<and>
   map_option selectedPath
     (tokenize id ''__proto__'' BPE False (Some [vi ''__proto__'' 0])) =
     Some [''edge-0-9-__proto__''] \<and>
   map_option tokens
     (tokenize id ''__proto__'' BPE False (Some [vi ''__proto__'' 0])) = Some [''__proto__'']"
  using proto_viterbi proto_greedy
  by (simp add: tokenize_alt eval_nat_numeral proto_lattice_bpe labelOf_def)

section \<open>Greedy locality\<close>

text \<open>
  C4. In every state of the greedy loop with \<open>current < length\<close>: when no edge leaves
  \<open>current\<close> the loop stops and returns the path accumulated so far; otherwise the chosen
  edge \<open>best\<close> is an edge out of \<open>current\<close> of maximal span, every candidate listed before
  it is strictly shorter (the first of the longest wins), and the loop continues from
  \<open>best.to\<close> with \<open>best.id\<close> appended, so the choice depends on the edges out of the
  current node only. On any list of forward edges the decoder returns a walk from node 0
  that ends at the end of the text or at a node without outgoing edge, and each of its
  edges is that first longest edge of its start node.
\<close>

theorem C4_greedy_takes_first_longest_edge:
  "(current < len \<longrightarrow>
      (filter (\<lambda>e. efrom e = current) es = [] \<and> greedyLoop es len current path = Some path) \<or>
      (\<exists>pre best post.
          filter (\<lambda>e. efrom e = current) es = pre @ best # post \<and>
          (\<forall>c\<in>set pre. span c < span best) \<and>
          (\<forall>c\<in>set post. span c \<le> span best) \<and>
          greedyLoop es len current path = greedyLoop es len (eto best) (path @ [eid best]))) \<and>
   (forwardEdges len es \<longrightarrow>
      (\<exists>p v. greedyDecode es len = Some (map eid p) \<and> set p \<subseteq> set es \<and> walk p 0 v \<and>
         (len \<le> v \<or> filter (\<lambda>e. efrom e = v) es = []) \<and>
         (\<forall>b\<in>set p. \<exists>pre post.
             filter (\<lambda>e. efrom e = efrom b) es = pre @ b # post \<and>
             (\<forall>c\<in>set pre. span c < span b) \<and> (\<forall>c\<in>set post. span c \<le> span b))))"
proof (intro conjI impI)
  assume lt: "current < len"
  let ?c = "filter (\<lambda>e. efrom e = current) es"
  show "(?c = [] \<and> greedyLoop es len current path = Some path) \<or>
      (\<exists>pre best post. ?c = pre @ best # post \<and>
          (\<forall>c\<in>set pre. span c < span best) \<and> (\<forall>c\<in>set post. span c \<le> span best) \<and>
          greedyLoop es len current path = greedyLoop es len (eto best) (path @ [eid best]))"
  proof (cases ?c)
    case Nil
    with lt show ?thesis by (simp add: greedyLoop_dead)
  next
    case (Cons c cs)
    let ?b = "hd (sort_key spanKey (c # cs))"
    have "c # cs \<noteq> []" by simp
    from hd_sort_key_first_min[OF this, of spanKey] obtain pre post where
      d: "c # cs = pre @ ?b # post" "\<forall>x\<in>set pre. spanKey ?b < spanKey x"
         "\<forall>x\<in>set post. spanKey ?b \<le> spanKey x" by blast
    have "\<forall>x\<in>set pre. span x < span ?b" "\<forall>x\<in>set post. span x \<le> span ?b"
      using d(2,3) by (simp_all add: spanKey_span)
    moreover have "greedyLoop es len current path = greedyLoop es len (eto ?b) (path @ [eid ?b])"
      by (rule greedyLoop_step[OF lt Cons])
    ultimately show ?thesis using d(1) Cons by metis
  qed
next
  assume fw: "forwardEdges len es"
  from greedyLoop_partial[OF fw, of 0 "[]"] obtain p v where
    p: "greedyDecode es len = Some (map eid p)" "set p \<subseteq> set es" "walk p 0 v"
       "len \<le> v \<or> filter (\<lambda>e. efrom e = v) es = []"
       "\<forall>b\<in>set p. efrom b < len \<and> b = hd (sort_key spanKey (filter (\<lambda>e. efrom e = efrom b) es))"
    by (auto simp: greedyDecode_def)
  have "\<forall>b\<in>set p. \<exists>pre post.
             filter (\<lambda>e. efrom e = efrom b) es = pre @ b # post \<and>
             (\<forall>c\<in>set pre. span c < span b) \<and> (\<forall>c\<in>set post. span c \<le> span b)"
  proof
    fix b assume b: "b \<in> set p"
    let ?c = "filter (\<lambda>e. efrom e = efrom b) es"
    from b p(2) have "b \<in> set ?c" by auto
    then have ne: "?c \<noteq> []" by (metis empty_iff empty_set)
    from b p(5) have h: "b = hd (sort_key spanKey ?c)" by simp
    from hd_sort_key_first_min[OF ne, of spanKey] h obtain pre post where
      d: "?c = pre @ b # post" "\<forall>x\<in>set pre. spanKey b < spanKey x"
         "\<forall>x\<in>set post. spanKey b \<le> spanKey x" by metis
    then show "\<exists>pre post. ?c = pre @ b # post \<and>
             (\<forall>c\<in>set pre. span c < span b) \<and> (\<forall>c\<in>set post. span c \<le> span b)"
      by (intro exI[of _ pre] exI[of _ post]) (simp add: spanKey_span)
  qed
  with p(1-4) show "\<exists>p v. greedyDecode es len = Some (map eid p) \<and> set p \<subseteq> set es \<and> walk p 0 v \<and>
         (len \<le> v \<or> filter (\<lambda>e. efrom e = v) es = []) \<and>
         (\<forall>b\<in>set p. \<exists>pre post.
             filter (\<lambda>e. efrom e = efrom b) es = pre @ b # post \<and>
             (\<forall>c\<in>set pre. span c < span b) \<and> (\<forall>c\<in>set post. span c \<le> span b))"
    by blast
qed

text \<open>
  An instance with a tie: \<^verbatim>\<open>y\<close> and \<^verbatim>\<open>z\<close> both span two characters from node 0, \<^verbatim>\<open>x\<close>
  spans one; the decoder takes \<^verbatim>\<open>y\<close>, the first of the two longest.
\<close>

theorem C4_greedy_takes_first_longest_edge_witness:
  "(0::nat) < 2 \<and>
   forwardEdges 2
     [\<lparr>eid = ''x'', efrom = 0, eto = 1, elabel = ''x'', escore = Num 0\<rparr>,
      \<lparr>eid = ''y'', efrom = 0, eto = 2, elabel = ''y'', escore = Num 0\<rparr>,
      \<lparr>eid = ''z'', efrom = 0, eto = 2, elabel = ''z'', escore = Num 0\<rparr>,
      \<lparr>eid = ''w'', efrom = 1, eto = 2, elabel = ''w'', escore = Num 0\<rparr>] \<and>
   greedyLoop
     [\<lparr>eid = ''x'', efrom = 0, eto = 1, elabel = ''x'', escore = Num 0\<rparr>,
      \<lparr>eid = ''y'', efrom = 0, eto = 2, elabel = ''y'', escore = Num 0\<rparr>,
      \<lparr>eid = ''z'', efrom = 0, eto = 2, elabel = ''z'', escore = Num 0\<rparr>,
      \<lparr>eid = ''w'', efrom = 1, eto = 2, elabel = ''w'', escore = Num 0\<rparr>] 2 0 [] = Some [''y'']"
proof -
  let ?a = "\<lparr>eid = ''x'', efrom = 0, eto = 1, elabel = ''x'', escore = Num 0\<rparr>"
  let ?b = "\<lparr>eid = ''y'', efrom = 0, eto = 2, elabel = ''y'', escore = Num 0\<rparr>"
  let ?c = "\<lparr>eid = ''z'', efrom = 0, eto = 2, elabel = ''z'', escore = Num 0\<rparr>"
  let ?d = "\<lparr>eid = ''w'', efrom = 1, eto = 2, elabel = ''w'', escore = Num 0\<rparr>"
  let ?es = "[?a, ?b, ?c, ?d]"
  have fw: "forwardEdges 2 ?es" by (simp add: forwardEdges_def)
  have f: "filter (\<lambda>e. efrom e = 0) ?es = [?a, ?b, ?c]" by simp
  have lt: "(0::nat) < 2" by simp
  from C4_greedy_takes_first_longest_edge[of 0 2 ?es "[]"] lt f
  obtain pre best post where
    d: "[?a, ?b, ?c] = pre @ best # post" "\<forall>c\<in>set pre. span c < span best"
       "\<forall>c\<in>set post. span c \<le> span best"
       "greedyLoop ?es 2 0 [] = greedyLoop ?es 2 (eto best) ([] @ [eid best])"
    by auto
  from d(1) have "(pre = [] \<and> best = ?a \<and> post = [?b, ?c]) \<or>
                  (pre = [?a] \<and> best = ?b \<and> post = [?c]) \<or>
                  (pre = [?a, ?b] \<and> best = ?c \<and> post = [])"
    by (auto simp: Cons_eq_append_conv)
  with d(2,3) have "best = ?b" by (auto simp: span_def)
  with d(4) have "greedyLoop ?es 2 0 [] = Some [''y'']" by (simp add: greedyLoop_done)
  with fw lt show ?thesis by simp
qed

section \<open>The lattice invariant\<close>

text \<open>
  C7. For every text, algorithm and vocabulary the lattice satisfies: every edge moves
  strictly forward and stays inside the text (\<open>from < to \<le> len(text)\<close>, with \<open>0 \<le> from\<close>
  by the type); every position below \<open>len(text)\<close> has an outgoing edge; and at a position
  \<open>i\<close> where the lookup fails for every end \<open>j\<close> the builder tries, the edges out of \<open>i\<close>
  are exactly the one fallback edge from \<open>i\<close> to \<open>i + 1\<close>, labelled with the character
  \<open>text[i]\<close> and scored 10.
\<close>

theorem C7_lattice_invariant:
  "(\<forall>e\<in>set (fst (buildLattice tx algo cv)). efrom e < eto e \<and> eto e \<le> length tx) \<and>
   (\<forall>i<length tx. \<exists>e\<in>set (fst (buildLattice tx algo cv)). efrom e = i) \<and>
   (\<forall>i<length tx.
      (\<forall>j\<in>{i + 1 .. min (length tx) (i + MAX_TOKEN_LENGTH)}.
          findMatch (case cv of Some c \<Rightarrow> c | None \<Rightarrow> MOCK_VOCAB) algo i
            (take (j - i) (drop i tx)) = None) \<longrightarrow>
      filter (\<lambda>e. efrom e = i) (fst (buildLattice tx algo cv)) =
        [\<lparr>eid = ''edge-'' @ show_nat i @ ''-'' @ show_nat (i + 1) @ ''-fallback-'' @ [tx ! i],
          efrom = i, eto = i + 1, elabel = [tx ! i], escore = Num 10\<rparr>])"
proof (intro conjI allI impI ballI)
  fix e assume "e \<in> set (fst (buildLattice tx algo cv))"
  then have "e \<in> set (latticeEdges tx algo cv)" by (simp add: latticeEdges_def)
  from lattice_edge[OF this] show "efrom e < eto e" "eto e \<le> length tx" by auto
next
  fix i assume "i < length tx"
  from lattice_has_outgoing[OF this, of algo cv]
  obtain e where "e \<in> set (filter (\<lambda>e. efrom e = i) (latticeEdges tx algo cv))"
    by (cases "filter (\<lambda>e. efrom e = i) (latticeEdges tx algo cv)") auto
  then show "\<exists>e\<in>set (fst (buildLattice tx algo cv)). efrom e = i"
    by (auto simp: latticeEdges_def)
next
  fix i assume i: "i < length tx"
    and nm: "\<forall>j\<in>{i + 1 .. min (length tx) (i + MAX_TOKEN_LENGTH)}.
          findMatch (case cv of Some c \<Rightarrow> c | None \<Rightarrow> MOCK_VOCAB) algo i
            (take (j - i) (drop i tx)) = None"
  have "filter (\<lambda>e. efrom e = i) (latticeEdges tx algo cv) = [fallbackEdge tx i]"
    using i edgesAt_fallback[OF nm] by (simp add: lattice_outgoing)
  then show "filter (\<lambda>e. efrom e = i) (fst (buildLattice tx algo cv)) =
        [\<lparr>eid = ''edge-'' @ show_nat i @ ''-'' @ show_nat (i + 1) @ ''-fallback-'' @ [tx ! i],
          efrom = i, eto = i + 1, elabel = [tx ! i], escore = Num 10\<rparr>]"
    by (simp add: latticeEdges_def fallbackEdge_def)
qed

text \<open>
  An instance: in \<^verbatim>\<open>ab\<close> with the vocabulary \<^verbatim>\<open>a\<close> nothing matches at position 1, and the
  only edge out of node 1 is the fallback edge for \<^verbatim>\<open>b\<close>.
\<close>

theorem C7_lattice_invariant_witness:
  "(1::nat) < length ''ab'' \<and>
   findMatch [vi ''a'' 1] BPE 1 (take (2 - 1) (drop 1 ''ab'')) = None \<and>
   filter (\<lambda>e. efrom e = 1) (fst (buildLattice ''ab'' BPE (Some [vi ''a'' 1]))) =
     [\<lparr>eid = ''edge-1-2-fallback-b'', efrom = 1, eto = 2, elabel = ''b'', escore = Num 10\<rparr>] \<and>
   map (\<lambda>e. (efrom e, eto e)) (fst (buildLattice ''ab'' BPE (Some [vi ''a'' 1]))) = [(0, 1), (1, 2)]"
proof -
  have l: "(1::nat) < length ''ab''" by simp
  have m: "findMatch [vi ''a'' 1] BPE 1 (take (2 - 1) (drop 1 ''ab'')) = None"
    by (simp add: findMatch_def vi_def)
  have r: "{1 + 1 .. min (length ''ab'') (1 + MAX_TOKEN_LENGTH)} = {2::nat}"
    by (auto simp: MAX_TOKEN_LENGTH_def)
  have h: "\<forall>j\<in>{1 + 1 .. min (length ''ab'') (1 + MAX_TOKEN_LENGTH)}.
          findMatch (case Some [vi ''a'' 1] of Some c \<Rightarrow> c | None \<Rightarrow> MOCK_VOCAB) BPE 1
            (take (j - 1) (drop 1 ''ab'')) = None"
    unfolding r using m by simp
  from C7_lattice_invariant[of "''ab''" BPE "Some [vi ''a'' 1]"] l h
  have "filter (\<lambda>e. efrom e = 1) (fst (buildLattice ''ab'' BPE (Some [vi ''a'' 1]))) =
     [\<lparr>eid = ''edge-'' @ show_nat 1 @ ''-'' @ show_nat (1 + 1) @ ''-fallback-'' @ [''ab'' ! 1],
          efrom = 1, eto = 1 + 1, elabel = [''ab'' ! 1], escore = Num 10\<rparr>]"
    by blast
  then have f: "filter (\<lambda>e. efrom e = 1) (fst (buildLattice ''ab'' BPE (Some [vi ''a'' 1]))) =
     [\<lparr>eid = ''edge-1-2-fallback-b'', efrom = 1, eto = 2, elabel = ''b'', escore = Num 10\<rparr>]"
    by (simp add: show_nat_small digit_char_def)
  have "map (\<lambda>e. (efrom e, eto e)) (fst (buildLattice ''ab'' BPE (Some [vi ''a'' 1]))) = [(0, 1), (1, 2)]"
    by (simp add: lattice_eval indexTable_def)
  with l m f show ?thesis by blast
qed

section \<open>Trace fidelity\<close>

text \<open>
  C5. For every input text, algorithm, normalisation flag and vocabulary,
  \<^verbatim>\<open>tokenizeWithTrace\<close> returns, and the result it returns (lattice, selected path and
  tokens) is the result of \<^verbatim>\<open>tokenize\<close> on the same arguments. Both the selected path and
  the tokens are determined by the frames alone: the path is the one accumulated by the
  last frame, and the tokens are the labels read off its edge identifiers.
\<close>

theorem C5_trace_returns_same_result:
  "\<exists>r frames. tokenizeWithTrace f inp algo nz cv = Some (r, frames) \<and>
              tokenize f inp algo nz cv = Some r \<and>
              selectedPath r = replayPath frames \<and>
              tokens r = replayTokens frames"
proof -
  let ?t = "if nz then f inp else inp"
  let ?E = "latticeEdges ?t algo cv"
  from decode_trace_walk[of algo ?t cv] obtain p :: "TokenEdge list" and fr where
    d: "(if algo = UNIGRAM then viterbiDecode ?E (length ?t) else greedyDecode ?E (length ?t))
          = Some (map eid p)"
       "set p \<subseteq> set ?E"
       "(if algo = UNIGRAM then
             (case foldOption (relaxNodeT ?E) [0 ..< length ?t] (initCost (length ?t), []) of
                None \<Rightarrow> None
              | Some (minCost, frames) \<Rightarrow> backtrackT minCost (int (length ?t)) [] frames)
           else greedyLoopT ?E (length ?t) 0 [] []) = Some (map eid p, fr)"
       "replayPath fr = map eid p" by blast
  let ?r = "\<lparr>graph = \<lparr>nodes = [0 ..< length ?t + 1], edges = ?E, gtext = ?t\<rparr>,
             selectedPath = map eid p, tokens = map (labelOf ?E) (map eid p)\<rparr>"
  have "tokenizeWithTrace f inp algo nz cv = Some (?r, fr)"
    unfolding tokenizeWithTrace_alt d(3) by simp
  moreover have "tokenize f inp algo nz cv = Some ?r"
    unfolding tokenize_alt d(1) by simp
  moreover have "tokens ?r = replayTokens fr"
    unfolding replayTokens_def d(4)
    using labels_of_lattice_path[OF d(2)] labelOfId_path[OF d(2)] by simp
  ultimately show ?thesis using d(4) by (intro exI[of _ ?r] exI[of _ fr]) simp
qed

section \<open>Missing and empty vocabulary\<close>

text \<open>
  C9, as stated: with a missing or an empty vocabulary every position falls back to a
  single-character edge and the output is character-level. For a missing vocabulary
  argument this fails: \<^verbatim>\<open>customVocab || MOCK_VOCAB\<close> selects the built-in vocabulary, which
  contains \<^verbatim>\<open>an\<close>, so the text \<^verbatim>\<open>an\<close> is covered by one matched edge and comes out as the
  single token \<^verbatim>\<open>an\<close>.
\<close>

theorem C9_missing_vocabulary_is_not_character_level:
  "map_option selectedPath (tokenize id ''an'' WORDPIECE False None) = Some [''edge-0-2-an''] \<and>
   map_option tokens (tokenize id ''an'' WORDPIECE False None) = Some [''an'']"
  by (simp add: tokenize_def lattice_eval mock_find greedyDecode_def greedyLoop_done
        greedyLoop_dead greedyLoop_step spanKey_def labelOf_def)

text \<open>
  C9, amended: with the empty vocabulary, for every text, algorithm and normalisation
  flag, the lattice consists of the fallback edges of the positions in order, the selected
  path contains all of them, and the tokens are the single characters of the text; for the
  text \<^verbatim>\<open>ab\<close> these are the two edges from 0 to 1 and from 1 to 2, labelled \<^verbatim>\<open>a\<close> and
  \<^verbatim>\<open>b\<close>, and the tokens \<^verbatim>\<open>a\<close>, \<^verbatim>\<open>b\<close>.
\<close>

theorem C9_empty_vocabulary_falls_back_to_characters:
  "tokenize f inp algo nz (Some []) =
     Some \<lparr>graph = \<lparr>nodes = [0 ..< length (if nz then f inp else inp) + 1],
                    edges = map (fallbackEdge (if nz then f inp else inp))
                              [0 ..< length (if nz then f inp else inp)],
                    gtext = (if nz then f inp else inp)\<rparr>,
           selectedPath = map (\<lambda>i. eid (fallbackEdge (if nz then f inp else inp) i))
                            [0 ..< length (if nz then f inp else inp)],
           tokens = map (\<lambda>c. [c]) (if nz then f inp else inp)\<rparr> \<and>
   tokenize f ''ab'' algo False (Some []) =
     Some \<lparr>graph = \<lparr>nodes = [0, 1, 2],
                    edges = [\<lparr>eid = ''edge-0-1-fallback-a'', efrom = 0, eto = 1,
                               elabel = ''a'', escore = Num 10\<rparr>,
                             \<lparr>eid = ''edge-1-2-fallback-b'', efrom = 1, eto = 2,
                               elabel = ''b'', escore = Num 10\<rparr>],
                    gtext = ''ab''\<rparr>,
           selectedPath = [''edge-0-1-fallback-a'', ''edge-1-2-fallback-b''],
           tokens = [''a'', ''b'']\<rparr>"
proof
  show "tokenize f inp algo nz (Some []) =
     Some \<lparr>graph = \<lparr>nodes = [0 ..< length (if nz then f inp else inp) + 1],
                    edges = map (fallbackEdge (if nz then f inp else inp))
                              [0 ..< length (if nz then f inp else inp)],
                    gtext = (if nz then f inp else inp)\<rparr>,
           selectedPath = map (\<lambda>i. eid (fallbackEdge (if nz then f inp else inp) i))
                            [0 ..< length (if nz then f inp else inp)],
           tokens = map (\<lambda>c. [c]) (if nz then f inp else inp)\<rparr>"
    by (rule tokenize_empty_vocab)
next
  show "tokenize f ''ab'' algo False (Some []) =
     Some \<lparr>graph = \<lparr>nodes = [0, 1, 2],
                    edges = [\<lparr>eid = ''edge-0-1-fallback-a'', efrom = 0, eto = 1,
                               elabel = ''a'', escore = Num 10\<rparr>,
                             \<lparr>eid = ''edge-1-2-fallback-b'', efrom = 1, eto = 2,
                               elabel = ''b'', escore = Num 10\<rparr>],
                    gtext = ''ab''\<rparr>,
           selectedPath = [''edge-0-1-fallback-a'', ''edge-1-2-fallback-b''],
           tokens = [''a'', ''b'']\<rparr>"
    unfolding tokenize_empty_vocab
    by (simp add: upt_conv_Cons fallbackEdge_def show_nat_small digit_char_def)
qed

section \<open>Greedy results are independent of the vocabulary scores\<close>

text \<open>
  C10. For BPE and WordPiece, two vocabularies with the same token strings in the same
  order, whatever their scores, give the same selected path (the same edge identifiers)
  and the same tokens, and \<^verbatim>\<open>tokenize\<close> returns on both.
\<close>

theorem C10_greedy_result_ignores_scores:
  assumes "algo \<noteq> UNIGRAM" and "map token v1 = map token v2"
  shows "\<exists>r1 r2. tokenize f inp algo nz (Some v1) = Some r1 \<and>
                 tokenize f inp algo nz (Some v2) = Some r2 \<and>
                 selectedPath r1 = selectedPath r2 \<and> tokens r1 = tokens r2"
proof -
  let ?t = "if nz then f inp else inp"
  let ?E1 = "latticeEdges ?t algo (Some v1)"
  let ?E2 = "latticeEdges ?t algo (Some v2)"
  have eq: "map unscored ?E1 = map unscored ?E2" by (rule lattice_unscored[OF assms(2)])
  from greedy_lattice[of ?t algo "Some v1"] obtain p :: "TokenEdge list" where
    p: "greedyDecode ?E1 (length ?t) = Some (map eid p)" by blast
  have g: "greedyDecode ?E2 (length ?t) = greedyDecode ?E1 (length ?t)"
    unfolding greedyDecode_def by (rule greedyLoop_unscored[OF lattice_forward eq, symmetric])
  have l: "labelOf ?E1 = labelOf ?E2"
  proof
    fix i show "labelOf ?E1 i = labelOf ?E2 i"
      using labelOf_unscored[of ?E1 i] labelOf_unscored[of ?E2 i] eq by simp
  qed
  let ?r1 = "\<lparr>graph = \<lparr>nodes = [0 ..< length ?t + 1], edges = ?E1, gtext = ?t\<rparr>,
              selectedPath = map eid p, tokens = map (labelOf ?E1) (map eid p)\<rparr>"
  let ?r2 = "\<lparr>graph = \<lparr>nodes = [0 ..< length ?t + 1], edges = ?E2, gtext = ?t\<rparr>,
              selectedPath = map eid p, tokens = map (labelOf ?E2) (map eid p)\<rparr>"
  have "tokenize f inp algo nz (Some v1) = Some ?r1"
    unfolding tokenize_alt using assms(1) p by simp
  moreover have "tokenize f inp algo nz (Some v2) = Some ?r2"
    unfolding tokenize_alt using assms(1) p g by simp
  moreover have "selectedPath ?r1 = selectedPath ?r2 \<and> tokens ?r1 = tokens ?r2"
    using l by simp
  ultimately show ?thesis by blast
qed

text \<open>An instance: the vocabulary \<^verbatim>\<open>a\<close>, \<^verbatim>\<open>ab\<close> with scores 1, 2 and with scores 7, 0.\<close>

theorem C10_greedy_result_ignores_scores_witness:
  "BPE \<noteq> UNIGRAM \<and>
   map token [vi ''a'' 1, vi ''ab'' 2] = map token [vi ''a'' 7, vi ''ab'' 0] \<and>
   (\<exists>r1 r2. tokenize (\<lambda>x. x) ''ab'' BPE False (Some [vi ''a'' 1, vi ''ab'' 2]) = Some r1 \<and>
            tokenize (\<lambda>x. x) ''ab'' BPE False (Some [vi ''a'' 7, vi ''ab'' 0]) = Some r2 \<and>
            selectedPath r1 = selectedPath r2 \<and> tokens r1 = tokens r2)"
proof -
  have a: "BPE \<noteq> UNIGRAM" by simp
  have b: "map token [vi ''a'' 1, vi ''ab'' 2] = map token [vi ''a'' 7, vi ''ab'' 0]"
    by (simp add: vi_def)
  from C10_greedy_result_ignores_scores[OF a b, of "\<lambda>x. x" "''ab''" False] a b
  show ?thesis by blast
qed

section \<open>Scores of edges\<close>

text \<open>
  C8 says that a matched edge scores \<open>- ln\<close> of the softmax probability of its token in
  Unigram mode and the rank of its token by descending raw score in BPE mode. The code
  does otherwise at three inputs with a supplied vocabulary.

  With the vocabulary \<^verbatim>\<open>[{token: "a", score: 10000}]\<close> (the vocabulary loaders assign
  scores of this size) and the text \<^verbatim>\<open>a\<close> in Unigram mode, \<^verbatim>\<open>Math.exp(10000)\<close> is
  \<^verbatim>\<open>Infinity\<close>, the table entry \<^verbatim>\<open>Infinity / Infinity\<close> is \<^verbatim>\<open>NaN\<close>, and
  \<^verbatim>\<open>NaN || 0.0001\<close> takes the floor although the token is in the table: the edge scores
  \<open>- ln 0.0001\<close>, where the softmax probability of the only token is 1 and its \<open>- ln\<close> is 0.

  With the vocabulary \<^verbatim>\<open>a\<close> (score 1), \<^verbatim>\<open>b\<close> (score 5) and the text \<^verbatim>\<open>a\<close> in BPE mode,
  the edge for \<^verbatim>\<open>a\<close> scores 0, its position in the list, where its rank by descending
  score is 1; the rank table of the built-in vocabulary is filled after sorting by
  descending score.

  With the vocabulary \<^verbatim>\<open>[{token: "__proto__", score: 0}]\<close> and the text \<^verbatim>\<open>__proto__\<close> the
  tables hold no entry for the token and the lookup yields \<^verbatim>\<open>Object.prototype\<close>: in BPE
  mode the score of the matched edge is that object, where the rank is 0, and in Unigram
  mode it is \<^verbatim>\<open>NaN\<close>.
\<close>

theorem C8_edge_scores_miss_softmax_and_rank:
  "softmaxTable [vi ''a'' 10000] ''a'' = Some NaN \<and>
   latticeEdges ''a'' UNIGRAM (Some [vi ''a'' 10000]) =
     [\<lparr>eid = ''edge-0-1-a'', efrom = 0, eto = 1, elabel = ''a'', escore = Num (- ln 0.0001)\<rparr>] \<and>
   latticeEdges ''a'' BPE (Some [vi ''a'' 1, vi ''b'' 5]) =
     [\<lparr>eid = ''edge-0-1-a'', efrom = 0, eto = 1, elabel = ''a'', escore = Num 0\<rparr>] \<and>
   rankByDescendingScore [vi ''a'' 1, vi ''b'' 5] ''a'' = Some 1 \<and>
   map escore (take 1 (latticeEdges ''__proto__'' BPE (Some [vi ''__proto__'' 0]))) = [Obj] \<and>
   map escore (take 1 (latticeEdges ''__proto__'' UNIGRAM (Some [vi ''__proto__'' 0]))) = [NaN]"
proof (intro conjI)
  show "softmaxTable [vi ''a'' 10000] ''a'' = Some NaN"
    by (simp add: table_eval vi_def jsExp_overflow)
  show "latticeEdges ''a'' UNIGRAM (Some [vi ''a'' 10000]) =
     [\<lparr>eid = ''edge-0-1-a'', efrom = 0, eto = 1, elabel = ''a'', escore = Num (- ln 0.0001)\<rparr>]"
    by (simp add: latticeEdges_def lattice_eval table_eval jsExp_overflow)
  show "latticeEdges ''a'' BPE (Some [vi ''a'' 1, vi ''b'' 5]) =
     [\<lparr>eid = ''edge-0-1-a'', efrom = 0, eto = 1, elabel = ''a'', escore = Num 0\<rparr>]"
    by (simp add: latticeEdges_def lattice_eval table_eval)
  show "rankByDescendingScore [vi ''a'' 1, vi ''b'' 5] ''a'' = Some 1"
    by (simp add: rankByDescendingScore_def table_eval vi_def)
  show "map escore (take 1 (latticeEdges ''__proto__'' BPE (Some [vi ''__proto__'' 0]))) = [Obj]"
    by (simp add: proto_lattice_bpe)
  show "map escore (take 1 (latticeEdges ''__proto__'' UNIGRAM (Some [vi ''__proto__'' 0]))) = [NaN]"
    by (simp add: proto_lattice)
qed

section \<open>Normalization twice\<close>

text \<open>
  C6 says that normalizing a normalized string changes nothing. At the string of the code
  units U+0061, U+05B1, U+034F, U+05B0 the code does otherwise. The combining grapheme
  joiner U+034F has combining class 0 and keeps the two Hebrew points apart in the
  canonical ordering, but it lies in the range that the \<^verbatim>\<open>replace\<close> step removes: the
  first pass returns U+0061, U+05B1, U+05B0, with the point of class 11 before the point
  of class 10. The second pass puts these two into canonical order and returns U+0061,
  U+05B0, U+05B1, another string.
\<close>

theorem C6_normalizeText_is_not_idempotent:
  "normalizeText [0x61, 0x5B1, 0x34F, 0x5B0] = Some [0x61, 0x5B1, 0x5B0] \<and>
   normalizeText [0x61, 0x5B1, 0x5B0] = Some [0x61, 0x5B0, 0x5B1] \<and>
   Option.bind (normalizeText [0x61, 0x5B1, 0x34F, 0x5B0]) normalizeText \<noteq>
     normalizeText [0x61, 0x5B1, 0x34F, 0x5B0]"
  by (simp add: normalizeText_def covered_def lowerCase_def nfd_def canonicalDecomposition_def
        combiningClass_def stripMarks_def trim_def whiteSpace_def)

end
